theory Spec2Isabelle
  imports Complex_Main
begin

section \<open>JavaScript values used by the server\<close>

subsection \<open>Numbers\<close>

text \<open>
  A JavaScript number is an IEEE 754 double. A finite double is represented by the rational
  it denotes; the two zeros are identified (the server never divides by a zero and never
  prints one, and both are falsy).
\<close>

datatype number = NaN | Fin rat | PosInf | NegInf

definition round_half_even :: "rat \<Rightarrow> int" where
  "round_half_even x =
     (let f = \<lfloor>x\<rfloor>; d = x - of_int f
      in if d < 1 / 2 then f else if 1 / 2 < d then f + 1 else if even f then f else f + 1)"

function bit_length :: "int \<Rightarrow> nat" where
  "bit_length n = (if n \<le> 0 then 0 else Suc (bit_length (n div 2)))"
  by auto
termination
  by (relation "measure nat") auto

text \<open>For \<open>0 < x\<close>, the integer \<open>e\<close> with \<open>2 powi e \<le> x < 2 powi (e + 1)\<close>.\<close>

definition floor_log2 :: "rat \<Rightarrow> int" where
  "floor_log2 x =
     (let (a, b) = quotient_of x;
          k = int (bit_length a) - int (bit_length b)
      in if 2 powi k \<le> x then k else k - 1)"

text \<open>
  The Number value for a rational: round to nearest, ties to even, with a 53 bit
  significand, exponents from -1022 (below that the spacing stays \<open>2 powi (- 1074)\<close>) to
  1023; a value that rounds to \<open>2 powi 1024\<close> or more is an infinity.
\<close>

definition to_double :: "rat \<Rightarrow> number" where
  "to_double x =
     (if x = 0 then Fin 0
      else let a = \<bar>x\<bar>;
               e = max (floor_log2 a) (- 1022);
               u = 2 powi (e - 52);
               m = round_half_even (a / u)
           in if 1023 < e \<or> (e = 1023 \<and> m = 2 ^ 53)
              then (if 0 < x then PosInf else NegInf)
              else Fin (sgn x * (of_int m * u)))"

text \<open>\<open>x || y\<close> on numbers: \<open>NaN\<close> and zero are falsy.\<close>

definition truthy :: "number \<Rightarrow> bool" where
  "truthy x = (case x of NaN \<Rightarrow> False | Fin q \<Rightarrow> q \<noteq> 0 | PosInf \<Rightarrow> True | NegInf \<Rightarrow> True)"

definition or_else :: "number \<Rightarrow> number \<Rightarrow> number" where
  "or_else x y = (if truthy x then x else y)"

fun Math_max :: "number \<Rightarrow> number \<Rightarrow> number" where
  "Math_max NaN y = NaN"
| "Math_max x NaN = NaN"
| "Math_max PosInf y = PosInf"
| "Math_max x PosInf = PosInf"
| "Math_max NegInf y = y"
| "Math_max x NegInf = x"
| "Math_max (Fin a) (Fin b) = Fin (max a b)"

fun Math_ceil :: "number \<Rightarrow> number" where
  "Math_ceil (Fin a) = Fin (of_int \<lceil>a\<rceil>)"
| "Math_ceil x = x"

fun js_sub :: "number \<Rightarrow> number \<Rightarrow> number" where
  "js_sub NaN y = NaN"
| "js_sub x NaN = NaN"
| "js_sub (Fin a) (Fin b) = to_double (a - b)"
| "js_sub PosInf PosInf = NaN"
| "js_sub NegInf NegInf = NaN"
| "js_sub PosInf y = PosInf"
| "js_sub NegInf y = NegInf"
| "js_sub x PosInf = NegInf"
| "js_sub x NegInf = PosInf"

definition js_neg :: "number \<Rightarrow> number" where
  "js_neg x = (case x of NaN \<Rightarrow> NaN | Fin a \<Rightarrow> Fin (- a) | PosInf \<Rightarrow> NegInf | NegInf \<Rightarrow> PosInf)"

fun js_mul :: "number \<Rightarrow> number \<Rightarrow> number" where
  "js_mul NaN y = NaN"
| "js_mul x NaN = NaN"
| "js_mul (Fin a) (Fin b) = to_double (a * b)"
| "js_mul (Fin a) y = (if a = 0 then NaN else if 0 < a then y else js_neg y)"
| "js_mul x (Fin b) = (if b = 0 then NaN else if 0 < b then x else js_neg x)"
| "js_mul PosInf y = y"
| "js_mul NegInf y = js_neg y"

text \<open>Division by a number that is not a zero (the server divides by the page size only).\<close>

fun js_div :: "number \<Rightarrow> number \<Rightarrow> number" where
  "js_div NaN y = NaN"
| "js_div x NaN = NaN"
| "js_div (Fin a) (Fin b) =
     (if b = 0 then (if a = 0 then NaN else if 0 < a then PosInf else NegInf)
      else to_double (a / b))"
| "js_div (Fin a) y = Fin 0"
| "js_div x (Fin b) = (if 0 \<le> b then x else js_neg x)"
| "js_div x y = NaN"

subsection \<open>Strings\<close>

text \<open>
  A string is a list of code units; the model covers the code units below 256. White space
  and line terminators in that range: TAB, LF, VT, FF, CR, SP and NBSP.
\<close>

definition is_white_space :: "char \<Rightarrow> bool" where
  "is_white_space c =
     (c = CHR 0x09 \<or> c = CHR 0x0A \<or> c = CHR 0x0B \<or> c = CHR 0x0C \<or> c = CHR 0x0D
      \<or> c = CHR 0x20 \<or> c = CHR 0xA0)"

definition trimStart :: "string \<Rightarrow> string" where
  "trimStart s = dropWhile is_white_space s"

definition trim :: "string \<Rightarrow> string" where
  "trim s = rev (trimStart (rev (trimStart s)))"

text \<open>The value of a digit or letter as a digit of a radix up to 36.\<close>

definition digit_value :: "char \<Rightarrow> int option" where
  "digit_value c =
     (let n = (of_char c :: int)
      in if 48 \<le> n \<and> n \<le> 57 then Some (n - 48)
         else if 97 \<le> n \<and> n \<le> 122 then Some (n - 87)
         else if 65 \<le> n \<and> n \<le> 90 then Some (n - 55)
         else None)"

definition is_radix_digit :: "int \<Rightarrow> char \<Rightarrow> bool" where
  "is_radix_digit R c = (case digit_value c of None \<Rightarrow> False | Some d \<Rightarrow> d < R)"

definition digits_value :: "int \<Rightarrow> string \<Rightarrow> int" where
  "digits_value R Z = foldl (\<lambda>acc c. acc * R + (case digit_value c of None \<Rightarrow> 0 | Some d \<Rightarrow> d)) 0 Z"

text \<open>
  \<open>parseInt(string)\<close> with no radix argument: skip leading white space, read a sign, take
  radix 16 after a \<open>0x\<close> or \<open>0X\<close> prefix and radix 10 otherwise, and convert the longest
  prefix of digits; whatever follows is ignored, and no digit at all gives \<open>NaN\<close>.
\<close>

definition parseInt :: "string \<Rightarrow> number" where
  "parseInt inputString =
     (let S = trimStart inputString;
          sign = (case S of c # r \<Rightarrow> if c = CHR ''-'' then - 1 else 1 | [] \<Rightarrow> 1);
          S1 = (case S of c # r \<Rightarrow> if c = CHR ''+'' \<or> c = CHR ''-'' then r else S | [] \<Rightarrow> S);
          hex = (take 2 S1 = ''0x'' \<or> take 2 S1 = ''0X'');
          R = (if hex then 16 else 10);
          S2 = (if hex then drop 2 S1 else S1);
          Z = takeWhile (is_radix_digit R) S2
      in if Z = [] then NaN else to_double (of_int (sign * digits_value R Z)))"

text \<open>
  The unsigned decimal literals of the string-to-number grammar, \<open>Infinity\<close> apart:
  digits with an optional fraction and an optional exponent, at least one digit before or
  after the point, and nothing left over.
\<close>

definition exponent_part :: "string \<Rightarrow> int option" where
  "exponent_part r =
     (case r of
        [] \<Rightarrow> Some 0
      | c # r1 \<Rightarrow>
          if c = CHR ''e'' \<or> c = CHR ''E'' then
            (let sign = (case r1 of d # r2 \<Rightarrow> if d = CHR ''-'' then - 1 else 1 | [] \<Rightarrow> 1);
                 ds = (case r1 of d # r2 \<Rightarrow> if d = CHR ''+'' \<or> d = CHR ''-'' then r2 else r1
                       | [] \<Rightarrow> r1)
             in if ds \<noteq> [] \<and> list_all (is_radix_digit 10) ds
                then Some (sign * digits_value 10 ds) else None)
          else None)"

definition StrUnsignedDecimalLiteral :: "string \<Rightarrow> rat option" where
  "StrUnsignedDecimalLiteral t =
     (let ip = takeWhile (is_radix_digit 10) t;
          r1 = dropWhile (is_radix_digit 10) t;
          dot = (case r1 of c # r \<Rightarrow> c = CHR ''.'' | [] \<Rightarrow> False);
          fp = (if dot then takeWhile (is_radix_digit 10) (tl r1) else []);
          r2 = (if dot then dropWhile (is_radix_digit 10) (tl r1) else r1)
      in if ip = [] \<and> fp = [] then None
         else (case exponent_part r2 of
                 None \<Rightarrow> None
               | Some ex \<Rightarrow>
                   Some (of_int (digits_value 10 (ip @ fp)) * 10 powi (ex - int (length fp)))))"

definition NonDecimalIntegerLiteral :: "int \<Rightarrow> string \<Rightarrow> number" where
  "NonDecimalIntegerLiteral R ds =
     (if ds \<noteq> [] \<and> list_all (is_radix_digit R) ds
      then to_double (of_int (digits_value R ds)) else NaN)"

text \<open>
  \<open>Number(string)\<close>: the whole string, white space at both ends apart, must be a numeric
  literal; the empty string is zero.
\<close>

definition StringToNumber :: "string \<Rightarrow> number" where
  "StringToNumber str =
     (let t = trim str
      in if t = [] then Fin 0
         else if take 2 t = ''0x'' \<or> take 2 t = ''0X'' then NonDecimalIntegerLiteral 16 (drop 2 t)
         else if take 2 t = ''0o'' \<or> take 2 t = ''0O'' then NonDecimalIntegerLiteral 8 (drop 2 t)
         else if take 2 t = ''0b'' \<or> take 2 t = ''0B'' then NonDecimalIntegerLiteral 2 (drop 2 t)
         else
           (let sign = (case t of c # r \<Rightarrow> if c = CHR ''-'' then - 1 else 1 | [] \<Rightarrow> 1);
                u = (case t of c # r \<Rightarrow> if c = CHR ''+'' \<or> c = CHR ''-'' then r else t | [] \<Rightarrow> t)
            in if u = ''Infinity'' then (if sign < 0 then NegInf else PosInf)
               else (case StrUnsignedDecimalLiteral u of
                       None \<Rightarrow> NaN
                     | Some q \<Rightarrow> to_double (sign * q))))"

subsection \<open>Query-string values\<close>

text \<open>
  \<open>req.query.page\<close> as the query parser of the web framework delivers it: absent, a
  string, an array of values, or a nested object.
\<close>

datatype qval = QStr string | QArr "qval list" | QObj

fun join :: "string list \<Rightarrow> string" where
  "join [] = []"
| "join [s] = s"
| "join (s # t # ss) = s @ '','' @ join (t # ss)"

fun ToString :: "qval \<Rightarrow> string" where
  "ToString (QStr s) = s"
| "ToString (QArr xs) = join (map ToString xs)"
| "ToString QObj = ''[object Object]''"

definition parseInt_query :: "qval option \<Rightarrow> number" where
  "parseInt_query q = parseInt (case q of None \<Rightarrow> ''undefined'' | Some v \<Rightarrow> ToString v)"

definition Number_query :: "qval option \<Rightarrow> number" where
  "Number_query q = (case q of None \<Rightarrow> NaN | Some v \<Rightarrow> StringToNumber (ToString v))"

text \<open>\<open>String(n)\<close> for an integer \<open>n\<close>, and for a value that may be \<open>undefined\<close>.\<close>

function decimal_digits :: "int \<Rightarrow> string" where
  "decimal_digits n =
     (if n < 10 then [char_of (48 + n)]
      else decimal_digits (n div 10) @ [char_of (48 + n mod 10)])"
  by auto
termination
  by (relation "measure nat") auto

definition String_int :: "int \<Rightarrow> string" where
  "String_int n = (if n < 0 then CHR ''-'' # decimal_digits (- n) else decimal_digits n)"

definition String_id :: "int option \<Rightarrow> string" where
  "String_id x = (case x of None \<Rightarrow> ''undefined'' | Some n \<Rightarrow> String_int n)"

definition String_env :: "string option \<Rightarrow> string" where
  "String_env x = (case x of None \<Rightarrow> ''undefined'' | Some a \<Rightarrow> a)"

section \<open>The world around a handler\<close>

text \<open>An awaited call either rejects (the \<open>await\<close> throws) or resolves with a value.\<close>

datatype 'a awaited = Rejected | Resolved 'a

text \<open>
  The texts the bot sends. The two versions of the server word them differently; each
  constructor stands for one text of each version, and the texts of one version differ
  from one another.
\<close>

datatype reply_text =
    Welcome
  | InvalidLink
  | NotAvailable
  | VideoReady
  | SomethingWentWrong
  | OnlyAdmin
  | Uploaded string string string
  | UploadFailed

text \<open>The calls a handler makes to the outside, in the order it makes them.\<close>

datatype effect =
    Reply reply_text
  | DeleteMessage
  | SendVideo "int option" string
  | GetFile string
  | Fetch string
  | GithubPut string string
  | StoreCreate string string string
  | StoreFindById string
  | StoreFind number nat
  | StoreCount
  | ConsoleError

text \<open>
  What the outside answers during one run of a handler: the process environment, whether
  each call to the bot transport goes through, what the media provider and the content
  host answer, the identifier the random generator returns, whether the store answers and
  the identifier it gives a new record, the clock when the handler starts, and how long a
  store read takes.
\<close>

record env =
  ADMIN_ID :: "string option"
  BOT_TOKEN :: "string option"
  GITHUB_USERNAME :: "string option"
  GITHUB_REPO :: "string option"
  GITHUB_BRANCH :: "string option"
  deleteMessage_ok :: bool
  reply_ok :: "reply_text \<Rightarrow> bool"
  sendVideo_ok :: bool
  getFile :: "string \<Rightarrow> string option awaited"
  fetch :: "string \<Rightarrow> string awaited"
  github_put_ok :: "string \<Rightarrow> bool"
  randomUUID :: string
  store_ok :: bool
  new_id :: string
  now :: int
  query_ms :: int

section \<open>The catalog store\<close>

text \<open>
  Modelled from the spec: the catalog store. The \<open>File\<close> model (\<open>./models/file.model\<close>)
  and the database behind it are not among the sources. The spec gives the store the
  operations \<open>create(record) \<rightarrow> record-with-id\<close>, \<open>findById(id) \<rightarrow> record | null\<close>,
  \<open>findPage(skip, limit, sortByCreatedAtDesc) \<rightarrow> records\<close> and \<open>count() \<rightarrow> integer\<close>, identifiers
  that are unique and assigned by the store, and a catalog that only grows. The catalog is
  the list of its records, newest first, so a record's creation time is its place in the
  list. A read or a write fails when the store does not answer; a page is read at a skip
  that is a non-negative integer.
\<close>

record file_doc =
  doc_id :: string
  file_id :: string
  title :: string
  thumbnail :: string

definition File_create ::
  "env \<Rightarrow> string \<Rightarrow> string \<Rightarrow> string \<Rightarrow> file_doc list \<Rightarrow> (file_doc \<times> file_doc list) awaited" where
  "File_create env fid ttl th docs =
     (if store_ok env \<and> new_id env \<notin> set (map doc_id docs)
      then (let d = \<lparr>doc_id = new_id env, file_id = fid, title = ttl, thumbnail = th\<rparr>
            in Resolved (d, d # docs))
      else Rejected)"

definition File_findById :: "env \<Rightarrow> file_doc list \<Rightarrow> string \<Rightarrow> file_doc option awaited" where
  "File_findById env docs i =
     (if store_ok env then Resolved (find (\<lambda>d. doc_id d = i) docs) else Rejected)"

definition File_find :: "env \<Rightarrow> file_doc list \<Rightarrow> number \<Rightarrow> nat \<Rightarrow> file_doc list awaited" where
  "File_find env docs skip limit =
     (case skip of
        Fin k \<Rightarrow>
          if store_ok env \<and> 0 \<le> k \<and> of_int \<lfloor>k\<rfloor> = k
          then Resolved (take limit (drop (nat \<lfloor>k\<rfloor>) docs)) else Rejected
      | _ \<Rightarrow> Rejected)"

definition File_countDocuments :: "env \<Rightarrow> file_doc list \<Rightarrow> number awaited" where
  "File_countDocuments env docs =
     (if store_ok env then Resolved (Fin (of_nat (length docs))) else Rejected)"

section \<open>The caches\<close>

text \<open>The response of the listing endpoint, which is also what the listing cache holds.\<close>

record listing =
  success :: bool
  page :: number
  perPage :: number
  total :: number
  totalPages :: number
  data :: "file_doc list"

text \<open>
  Modelled from the spec: the listing cache. \<open>filesCache\<close> is an object of the
  \<open>node-cache\<close> package, which is not among the sources. The spec gives it
  \<open>get(page) \<rightarrow> snapshot | miss\<close> (the snapshot if present and not older than the time to
  live), \<open>put(page, snapshot)\<close> (store, with age zero) and \<open>invalidateAll()\<close> (discard every
  entry). An entry is the snapshot and the time it was stored, in milliseconds; the key
  \<open>files_<page>\<close> is represented by the page number it is built from.
\<close>

type_synonym node_cache = "number \<rightharpoonup> listing \<times> int"

definition stdTTL :: int where
  "stdTTL = 60 * 5"

definition cache_get :: "node_cache \<Rightarrow> number \<Rightarrow> int \<Rightarrow> listing option" where
  "cache_get c k t =
     (case c k of
        None \<Rightarrow> None
      | Some (v, t0) \<Rightarrow> if t - t0 \<le> stdTTL * 1000 then Some v else None)"

definition cache_set :: "node_cache \<Rightarrow> number \<Rightarrow> listing \<Rightarrow> int \<Rightarrow> node_cache" where
  "cache_set c k v t = c(k \<mapsto> (v, t))"

definition flushAll :: "node_cache \<Rightarrow> node_cache" where
  "flushAll c = Map.empty"

text \<open>The state of the process: the store, the identifier cache and the listing cache.\<close>

record state =
  files :: "file_doc list"
  fileIdCache :: "string \<rightharpoonup> string"
  filesCache :: node_cache

definition initial :: state where
  "initial = \<lparr>files = [], fileIdCache = Map.empty, filesCache = Map.empty\<rparr>"

section \<open>The handlers\<close>

text \<open>
  The sources hold two versions of the server, \<open>src/index.ts\<close> and a second file whose
  name is not known. Their handlers differ in two places: the second version flushes the
  listing cache after an upload, the first does not; the first reads the page with
  \<open>parseInt\<close>, the second with \<open>Number\<close>.
\<close>

datatype version = Index_ts | Part_000

text \<open>An inbound update: the sender, the command payload, and the message with its video.\<close>

record tg_video =
  video_file_id :: string
  video_thumbnail :: "string option"

record tg_message =
  caption :: "string option"
  video :: "tg_video option"

record ctx =
  from_id :: "int option"
  payload_text :: string
  message :: "tg_message option"

text \<open>
  The body of a \<open>try\<close> block ends normally or by a throw; either way it has made some
  calls and left a state.
\<close>

datatype attempt = Completed "effect list" state | Threw "effect list" state

fun state_of :: "attempt \<Rightarrow> state" where
  "state_of (Completed es s) = s"
| "state_of (Threw es s) = s"

fun calls_of :: "attempt \<Rightarrow> effect list" where
  "calls_of (Completed es s) = es"
| "calls_of (Threw es s) = es"

text \<open>
  What a handler leaves: the calls it made, the state, and whether its promise rejected
  (the reply inside the \<open>catch\<close> block failed too).
\<close>

record outcome =
  effects :: "effect list"
  after :: state
  unhandled :: bool

definition ctx_reply :: "env \<Rightarrow> reply_text \<Rightarrow> effect list \<Rightarrow> state \<Rightarrow> attempt" where
  "ctx_reply env m es s =
     (if reply_ok env m then Completed (es @ [Reply m]) s else Threw (es @ [Reply m]) s)"

definition catch_with :: "env \<Rightarrow> reply_text \<Rightarrow> attempt \<Rightarrow> outcome" where
  "catch_with env m a =
     (case a of
        Completed es s \<Rightarrow> \<lparr>effects = es, after = s, unhandled = False\<rparr>
      | Threw es s \<Rightarrow>
          \<lparr>effects = es @ [ConsoleError, Reply m], after = s, unhandled = (\<not> reply_ok env m)\<rparr>)"

subsection \<open>Helpers\<close>

definition generateThumbnailPath :: "env \<Rightarrow> string" where
  "generateThumbnailPath env = ''thumbnails/'' @ randomUUID env @ ''.jpg''"

definition downloadTelegramFile :: "env \<Rightarrow> string \<Rightarrow> effect list \<times> string awaited" where
  "downloadTelegramFile env fid =
     (case getFile env fid of
        Rejected \<Rightarrow> ([GetFile fid], Rejected)
      | Resolved file_path \<Rightarrow>
          (let url = ''https://api.telegram.org/file/bot'' @ String_env (BOT_TOKEN env) @ ''/''
                     @ String_env file_path
           in ([GetFile fid, Fetch url], fetch env url)))"

definition uploadToGitHub :: "env \<Rightarrow> string \<Rightarrow> string \<Rightarrow> effect list \<times> string awaited" where
  "uploadToGitHub env buffer path =
     ([GithubPut path buffer],
      if github_put_ok env path
      then Resolved (''https://raw.githubusercontent.com/'' @ String_env (GITHUB_USERNAME env)
             @ ''/'' @ String_env (GITHUB_REPO env) @ ''/''
             @ (case GITHUB_BRANCH env of None \<Rightarrow> ''main'' | Some b \<Rightarrow> if b = [] then ''main'' else b)
             @ ''/'' @ path)
      else Rejected)"

subsection \<open>The \<open>/start\<close> command\<close>

text \<open>\<open>payload.trim().replace(/^video_/, "")\<close>\<close>

definition strip_video_prefix :: "string \<Rightarrow> string" where
  "strip_video_prefix s = (if take 6 s = ''video_'' then drop 6 s else s)"

definition deliver :: "env \<Rightarrow> ctx \<Rightarrow> string \<Rightarrow> effect list \<Rightarrow> state \<Rightarrow> attempt" where
  "deliver env c handle es s =
     (case ctx_reply env VideoReady es s of
        Threw es1 s1 \<Rightarrow> Threw es1 s1
      | Completed es1 s1 \<Rightarrow>
          if sendVideo_ok env then Completed (es1 @ [SendVideo (from_id c) handle]) s1
          else Threw (es1 @ [SendVideo (from_id c) handle]) s1)"

definition start_try :: "env \<Rightarrow> ctx \<Rightarrow> state \<Rightarrow> attempt" where
  "start_try env c s =
     (let payload = payload_text c
      in if payload = [] then ctx_reply env Welcome [] s
         else
           (let i = strip_video_prefix (trim payload)
            in if i = [] then ctx_reply env InvalidLink [] s
               else
                 (case (case fileIdCache s i of None \<Rightarrow> None
                        | Some h \<Rightarrow> if h = [] then None else Some h) of
                    Some h \<Rightarrow> deliver env c h [] s
                  | None \<Rightarrow>
                      (case File_findById env (files s) i of
                         Rejected \<Rightarrow> Threw [StoreFindById i] s
                       | Resolved None \<Rightarrow> ctx_reply env NotAvailable [StoreFindById i] s
                       | Resolved (Some f) \<Rightarrow>
                           deliver env c (file_id f) [StoreFindById i]
                             (s\<lparr>fileIdCache := (fileIdCache s)(i \<mapsto> file_id f)\<rparr>)))))"

definition start :: "env \<Rightarrow> ctx \<Rightarrow> state \<Rightarrow> outcome" where
  "start env c s = catch_with env SomethingWentWrong (start_try env c s)"

subsection \<open>The upload of a video\<close>

text \<open>
  From \<open>File.create\<close> on: persist, flush the listing cache (second version only), and
  acknowledge.
\<close>

definition create_and_acknowledge ::
  "version \<Rightarrow> env \<Rightarrow> string \<Rightarrow> string \<Rightarrow> string \<Rightarrow> effect list \<Rightarrow> state \<Rightarrow> attempt" where
  "create_and_acknowledge v env fid ttl thumbnail_url es s =
     (case File_create env fid ttl thumbnail_url (files s) of
        Rejected \<Rightarrow> Threw (es @ [StoreCreate fid ttl thumbnail_url]) s
      | Resolved (file, docs) \<Rightarrow>
          (let s1 = s\<lparr>files := docs\<rparr>;
               s2 = (case v of
                       Index_ts \<Rightarrow> s1
                     | Part_000 \<Rightarrow> s1\<lparr>filesCache := flushAll (filesCache s1)\<rparr>)
           in ctx_reply env (Uploaded ttl (doc_id file) thumbnail_url)
                (es @ [StoreCreate fid ttl thumbnail_url]) s2))"

definition video_title :: "tg_message \<Rightarrow> string" where
  "video_title m =
     (case caption m of
        None \<Rightarrow> ''Untitled Video''
      | Some cap \<Rightarrow> if trim cap = [] then ''Untitled Video'' else trim cap)"

definition on_video_try :: "version \<Rightarrow> env \<Rightarrow> ctx \<Rightarrow> state \<Rightarrow> attempt" where
  "on_video_try v env c s =
     (if String_id (from_id c) \<noteq> String_env (ADMIN_ID env) then
        (if deleteMessage_ok env then ctx_reply env OnlyAdmin [DeleteMessage] s
         else Threw [DeleteMessage] s)
      else
        (case message c of
           None \<Rightarrow> Completed [] s
         | Some m \<Rightarrow>
             (case video m of
                None \<Rightarrow> Completed [] s
              | Some vid \<Rightarrow>
                  (case video_thumbnail vid of
                     None \<Rightarrow>
                       create_and_acknowledge v env (video_file_id vid) (video_title m) [] [] s
                   | Some thumb \<Rightarrow>
                       (case downloadTelegramFile env thumb of
                          (es1, Rejected) \<Rightarrow> Threw es1 s
                        | (es1, Resolved buffer) \<Rightarrow>
                            (case uploadToGitHub env buffer (generateThumbnailPath env) of
                               (es2, Rejected) \<Rightarrow> Threw (es1 @ es2) s
                             | (es2, Resolved thumbnail_url) \<Rightarrow>
                                 create_and_acknowledge v env (video_file_id vid) (video_title m)
                                   thumbnail_url (es1 @ es2) s))))))"

definition on_video :: "version \<Rightarrow> env \<Rightarrow> ctx \<Rightarrow> state \<Rightarrow> outcome" where
  "on_video v env c s = catch_with env UploadFailed (on_video_try v env c s)"

subsection \<open>The listing endpoint\<close>

datatype http_response = Json200 listing | Json500

definition page_number :: "version \<Rightarrow> qval option \<Rightarrow> number" where
  "page_number v q =
     (case v of
        Index_ts \<Rightarrow> Math_max (or_else (parseInt_query q) (Fin 1)) (Fin 1)
      | Part_000 \<Rightarrow> Math_max (or_else (Number_query q) (Fin 1)) (Fin 1))"

definition limit :: nat where
  "limit = 30"

definition skip_of :: "number \<Rightarrow> number" where
  "skip_of p = js_mul (js_sub p (Fin 1)) (Fin (of_nat limit))"

text \<open>
  The handler runs up to its \<open>await\<close>: it answers from the cache, or asks the store for
  the page and the count and is suspended.
\<close>

datatype suspension = Answered http_response | Awaiting number

definition listing_begin :: "version \<Rightarrow> int \<Rightarrow> qval option \<Rightarrow> state \<Rightarrow> effect list \<times> suspension" where
  "listing_begin v t q s =
     (let p = page_number v q
      in case cache_get (filesCache s) p t of
           Some cached \<Rightarrow> ([], Answered (Json200 cached))
         | None \<Rightarrow> ([StoreFind (skip_of p) limit, StoreCount], Awaiting p))"

text \<open>\<open>Promise.all\<close> of the two reads: it rejects when either read rejects.\<close>

definition read_page :: "env \<Rightarrow> file_doc list \<Rightarrow> number \<Rightarrow> (file_doc list \<times> number) awaited" where
  "read_page env docs p =
     (case File_find env docs (skip_of p) limit of
        Rejected \<Rightarrow> Rejected
      | Resolved fs \<Rightarrow>
          (case File_countDocuments env docs of
             Rejected \<Rightarrow> Rejected
           | Resolved n \<Rightarrow> Resolved (fs, n)))"

text \<open>The handler resumes with what the store answered.\<close>

definition listing_resume ::
  "int \<Rightarrow> number \<Rightarrow> (file_doc list \<times> number) awaited \<Rightarrow> state \<Rightarrow> effect list \<times> http_response \<times> state" where
  "listing_resume t p answer s =
     (case answer of
        Rejected \<Rightarrow> ([ConsoleError], Json500, s)
      | Resolved (fs, n) \<Rightarrow>
          (let response = \<lparr>success = True, page = p, perPage = Fin (of_nat limit), total = n,
                            totalPages = Math_ceil (js_div n (Fin (of_nat limit))), data = fs\<rparr>
           in ([], Json200 response, s\<lparr>filesCache := cache_set (filesCache s) p response t\<rparr>)))"

text \<open>A request that runs alone, from its start to its response.\<close>

definition api_files :: "version \<Rightarrow> env \<Rightarrow> qval option \<Rightarrow> state \<Rightarrow> effect list \<times> http_response \<times> state" where
  "api_files v env q s =
     (case listing_begin v (now env) q s of
        (es, Answered r) \<Rightarrow> (es, r, s)
      | (es, Awaiting p) \<Rightarrow>
          (case listing_resume (now env + query_ms env) p (read_page env (files s) p) s of
             (es1, r, s1) \<Rightarrow> (es @ es1, r, s1)))"

text \<open>Requests that run one after the other, each to its end before the next starts.\<close>

fun serve_all ::
  "version \<Rightarrow> (env \<times> qval option) list \<Rightarrow> state \<Rightarrow> (effect list \<times> http_response) list \<times> state" where
  "serve_all v [] s = ([], s)"
| "serve_all v ((env, q) # calls) s =
     (case api_files v env q s of
        (es, r, s1) \<Rightarrow>
          (case serve_all v calls s1 of (outs, s2) \<Rightarrow> ((es, r) # outs, s2)))"

text \<open>
  Requests that overlap. The handler is suspended at its \<open>await\<close> and other requests run
  meanwhile: a schedule is a list of events, the arrival of a request (the handler runs
  up to the \<open>await\<close>) and the answer of the store to a suspended request (the handler runs
  from the \<open>await\<close> to its response). The suspended requests are kept by request number.
\<close>

datatype event = Arrive nat "qval option" int | StoreAnswers nat int

fun run_events ::
  "version \<Rightarrow> env \<Rightarrow> event list \<Rightarrow> (nat \<rightharpoonup> number) \<Rightarrow> state
     \<Rightarrow> effect list \<times> (nat \<times> http_response) list \<times> state" where
  "run_events v env [] w s = ([], [], s)"
| "run_events v env (Arrive i q t # evs) w s =
     (case listing_begin v t q s of
        (es, Answered r) \<Rightarrow>
          (case run_events v env evs w s of (es1, rs, s1) \<Rightarrow> (es @ es1, (i, r) # rs, s1))
      | (es, Awaiting p) \<Rightarrow>
          (case run_events v env evs (w(i \<mapsto> p)) s of (es1, rs, s1) \<Rightarrow> (es @ es1, rs, s1)))"
| "run_events v env (StoreAnswers i t # evs) w s =
     (case w i of
        None \<Rightarrow> run_events v env evs w s
      | Some p \<Rightarrow>
          (case listing_resume t p (read_page env (files s) p) s of
             (es, r, s1) \<Rightarrow>
               (case run_events v env evs (w(i := None)) s1 of
                  (es1, rs, s2) \<Rightarrow> (es @ es1, (i, r) # rs, s2))))"

section \<open>Properties\<close>

subsection \<open>States the server can reach\<close>

inductive reachable :: "version \<Rightarrow> state \<Rightarrow> bool" for v :: version where
  reachable_initial: "reachable v initial"
| reachable_start: "reachable v s \<Longrightarrow> reachable v (after (start env c s))"
| reachable_on_video: "reachable v s \<Longrightarrow> reachable v (after (on_video v env c s))"
| reachable_api_files: "reachable v s \<Longrightarrow> reachable v (snd (snd (api_files v env q s)))"

text \<open>
  The identifier cache agrees with the store: identifiers in the store are distinct, and a
  cached handle is the handle of the record with that identifier.
\<close>

definition cache_consistent :: "state \<Rightarrow> bool" where
  "cache_consistent s =
     (distinct (map doc_id (files s)) \<and>
      (\<forall>i h. fileIdCache s i = Some h \<longrightarrow>
         map_option file_id (find (\<lambda>d. doc_id d = i) (files s)) = Some h))"

subsection \<open>The listing cache as a sequence of operations\<close>

datatype cache_op = Put number listing int | InvalidateAll

fun apply_op :: "node_cache \<Rightarrow> cache_op \<Rightarrow> node_cache" where
  "apply_op c (Put k v t) = cache_set c k v t"
| "apply_op c InvalidateAll = flushAll c"

fun is_put_for :: "number \<Rightarrow> cache_op \<Rightarrow> bool" where
  "is_put_for k (Put k1 v t) = (k1 = k)"
| "is_put_for k InvalidateAll = False"

subsection \<open>Classes of calls and of inputs\<close>

text \<open>The calls that relay media or write to the store.\<close>

fun relay_or_write :: "effect \<Rightarrow> bool" where
  "relay_or_write (GetFile f) = True"
| "relay_or_write (Fetch u) = True"
| "relay_or_write (GithubPut p b) = True"
| "relay_or_write (StoreCreate f t u) = True"
| "relay_or_write e = False"

text \<open>The calls that persist a record or acknowledge an upload.\<close>

fun persists_or_acknowledges :: "effect \<Rightarrow> bool" where
  "persists_or_acknowledges (StoreCreate f t u) = True"
| "persists_or_acknowledges (Reply (Uploaded t i u)) = True"
| "persists_or_acknowledges e = False"

fun is_SendVideo :: "effect \<Rightarrow> bool" where
  "is_SendVideo (SendVideo u h) = True"
| "is_SendVideo e = False"

fun is_StoreFind :: "effect \<Rightarrow> bool" where
  "is_StoreFind (StoreFind k n) = True"
| "is_StoreFind e = False"

text \<open>The thumbnail relay fails: the download fails, or the upload that follows it.\<close>

definition thumbnail_relay_fails :: "env \<Rightarrow> string \<Rightarrow> bool" where
  "thumbnail_relay_fails env thumb =
     (case snd (downloadTelegramFile env thumb) of
        Rejected \<Rightarrow> True
      | Resolved buffer \<Rightarrow> snd (uploadToGitHub env buffer (generateThumbnailPath env)) = Rejected)"

text \<open>A page given as a plain integer: decimal digits with an optional sign.\<close>

definition decimal_digit_string :: "string \<Rightarrow> bool" where
  "decimal_digit_string ds = (ds \<noteq> [] \<and> list_all (is_radix_digit 10) ds)"

definition plain_integer :: "string \<Rightarrow> bool" where
  "plain_integer str =
     (case str of
        [] \<Rightarrow> False
      | c # r \<Rightarrow> if c = CHR ''+'' \<or> c = CHR ''-'' then decimal_digit_string r
                 else decimal_digit_string str)"

definition plain_page_query :: "qval option \<Rightarrow> bool" where
  "plain_page_query q =
     (case q of
        None \<Rightarrow> True
      | Some (QStr str) \<Rightarrow> plain_integer str
      | Some other \<Rightarrow> False)"

subsection \<open>Example worlds\<close>

definition env_ok :: env where
  "env_ok =
     \<lparr>ADMIN_ID = Some ''42'', BOT_TOKEN = Some ''token'', GITHUB_USERNAME = Some ''user'',
      GITHUB_REPO = Some ''repo'', GITHUB_BRANCH = None, deleteMessage_ok = True,
      reply_ok = (\<lambda>m. True), sendVideo_ok = True,
      getFile = (\<lambda>f. Resolved (Some ''thumbs/1.jpg'')), fetch = (\<lambda>u. Resolved ''bytes''),
      github_put_ok = (\<lambda>p. True), randomUUID = ''u1'', store_ok = True, new_id = ''abc123'',
      now = 0, query_ms = 5\<rparr>"

definition video_update :: "int \<Rightarrow> string option \<Rightarrow> ctx" where
  "video_update sender thumb =
     \<lparr>from_id = Some sender, payload_text = [],
      message = Some \<lparr>caption = Some ''Trailer'',
                       video = Some \<lparr>video_file_id = ''vid1'', video_thumbnail = thumb\<rparr>\<rparr>\<rparr>"

definition start_update :: "string \<Rightarrow> ctx" where
  "start_update payload = \<lparr>from_id = Some 7, payload_text = payload, message = None\<rparr>"

definition trailer :: "string \<Rightarrow> file_doc" where
  "trailer i = \<lparr>doc_id = i, file_id = ''vid1'', title = ''Trailer'', thumbnail = []\<rparr>"

definition catalog :: "nat \<Rightarrow> file_doc list" where
  "catalog n = map (\<lambda>k. trailer (String_int (int k))) (rev [0..<n])"

definition uploaded :: "version \<Rightarrow> state" where
  "uploaded v = after (on_video v env_ok (video_update 42 None) initial)"

text \<open>Page 1 of the empty catalog is listed (and cached), then the administrator uploads.\<close>

definition listed :: "version \<Rightarrow> state" where
  "listed v = snd (snd (api_files v env_ok (Some (QStr ''1'')) initial))"

definition listed_then_uploaded :: "version \<Rightarrow> state" where
  "listed_then_uploaded v = after (on_video v env_ok (video_update 42 None) (listed v))"

definition with_catalog :: "nat \<Rightarrow> state" where
  "with_catalog n = \<lparr>files = catalog n, fileIdCache = Map.empty, filesCache = Map.empty\<rparr>"

text \<open>Two later requests for page 1, one second and five minutes after the first answer.\<close>

definition later_calls :: "(env \<times> qval option) list" where
  "later_calls = [(env_ok\<lparr>now := 1000\<rparr>, Some (QStr ''1'')), (env_ok\<lparr>now := 300005\<rparr>, None)]"

text \<open>Two requests for page 2 that overlap, and the same two one after the other.\<close>

definition overlapping :: "event list" where
  "overlapping =
     [Arrive 1 (Some (QStr ''2'')) 0, Arrive 2 (Some (QStr ''2'')) 1, StoreAnswers 1 5, StoreAnswers 2 6]"

text \<open>
  Two requests for page 1 arrive at 0 and 1 ms on the first version, both before the store
  has answered. The store answers the first at 5 ms; the administrator's upload is then
  persisted and acknowledged; the store answers the second at 6 ms.
\<close>

definition first_answered :: state where
  "first_answered =
     snd (snd (listing_resume 5 (Fin 1) (read_page env_ok (files initial) (Fin 1)) initial))"

definition uploaded_between :: state where
  "uploaded_between = after (on_video Index_ts env_ok (video_update 42 None) first_answered)"

definition one_record_page :: listing where
  "one_record_page =
     \<lparr>success = True, page = Fin 1, perPage = Fin 30, total = Fin 1, totalPages = Fin 1,
      data = [trailer ''abc123'']\<rparr>"

definition empty_page :: "number \<Rightarrow> listing" where
  "empty_page p =
     \<lparr>success = True, page = p, perPage = Fin 30, total = Fin 0, totalPages = Fin 0, data = []\<rparr>"

section \<open>Facts about numbers\<close>

lemma bit_length_bounds:
  "0 < n \<Longrightarrow> 2 ^ (bit_length n - 1) \<le> n \<and> n < 2 ^ bit_length n"
proof (induction n rule: bit_length.induct)
  case (1 n)
  show ?case
  proof (cases "n = 1")
    case True
    then show ?thesis by simp
  next
    case False
    with "1.prems" have pos: "0 < n div 2" by presburger
    with "1.IH" "1.prems" have ih: "2 ^ (bit_length (n div 2) - 1) \<le> n div 2" "n div 2 < 2 ^ bit_length (n div 2)"
      by auto
    have bl: "bit_length n = Suc (bit_length (n div 2))" using "1.prems" by simp
    have bpos: "0 < bit_length (n div 2)" using pos by simp
    then obtain k where k: "bit_length (n div 2) = Suc k" by (cases "bit_length (n div 2)") auto
    from ih k have "2 * 2 ^ k \<le> n" "n < 2 * 2 ^ Suc k" by auto
    then show ?thesis unfolding bl k by simp
  qed
qed

lemma bit_length_pos: "0 < n \<Longrightarrow> 0 < bit_length n"
  by simp

lemma floor_log2_bounds:
  assumes "0 < x"
  shows "2 powi floor_log2 x \<le> x" and "x < 2 powi (floor_log2 x + 1)"
proof -
  obtain a b where q: "quotient_of x = (a, b)" by (cases "quotient_of x")
  have bpos: "0 < b" using q by (rule quotient_of_denom_pos)
  have x: "x = of_int a / of_int b" using q by (simp add: quotient_of_div)
  have apos: "0 < a" using assms bpos x by (simp add: zero_less_divide_iff)
  define la lb where "la = bit_length a" and "lb = bit_length b"
  have la: "2 ^ (la - 1) \<le> a" "a < 2 ^ la" "0 < la"
    using bit_length_bounds[OF apos] bit_length_pos[OF apos] by (auto simp: la_def)
  have lb: "2 ^ (lb - 1) \<le> b" "b < 2 ^ lb" "0 < lb"
    using bit_length_bounds[OF bpos] bit_length_pos[OF bpos] by (auto simp: lb_def)
  define k where "k = int la - int lb"
  have fl: "floor_log2 x = (if 2 powi k \<le> x then k else k - 1)"
    by (simp add: floor_log2_def q k_def la_def lb_def Let_def)
  have ra: "(2::rat) ^ (la - 1) \<le> of_int a" "(of_int a :: rat) < 2 ^ la"
    using la by (metis of_int_le_iff of_int_numeral of_int_power, metis of_int_less_iff of_int_numeral of_int_power)
  have rb: "(2::rat) ^ (lb - 1) \<le> of_int b" "(of_int b :: rat) < 2 ^ lb"
    using lb by (metis of_int_le_iff of_int_numeral of_int_power, metis of_int_less_iff of_int_numeral of_int_power)
  have rbpos: "(0::rat) < of_int b" using bpos by simp
  have up: "x < 2 powi (k + 1)"
  proof -
    have "x < 2 ^ la / 2 ^ (lb - 1)"
      unfolding x using ra rb rbpos apos
      by (intro frac_less) auto
    also have "\<dots> = 2 powi (k + 1)"
    proof -
      have "k + 1 = int la - int (lb - 1)" using lb by (simp add: k_def)
      then show ?thesis by (simp add: power_int_diff)
    qed
    finally show ?thesis .
  qed
  have lo: "2 powi (k - 1) \<le> x"
  proof -
    have "(2::rat) ^ (la - 1) / 2 ^ lb \<le> x"
      unfolding x using ra rb rbpos apos
      by (intro frac_le) auto
    moreover have "(2::rat) ^ (la - 1) / 2 ^ lb = 2 powi (k - 1)"
    proof -
      have "k - 1 = int (la - 1) - int lb" using la by (simp add: k_def)
      then show ?thesis by (simp add: power_int_diff)
    qed
    ultimately show ?thesis by simp
  qed
  show "2 powi floor_log2 x \<le> x" using fl lo by auto
  show "x < 2 powi (floor_log2 x + 1)" using fl up by (auto simp: not_le)
qed

lemma round_half_even_of_int: "round_half_even (of_int n) = n"
  by (simp add: round_half_even_def)

lemma round_half_even_error: "\<bar>of_int (round_half_even x) - x\<bar> \<le> 1 / 2"
proof -
  have "of_int \<lfloor>x\<rfloor> \<le> x" "x < of_int \<lfloor>x\<rfloor> + 1" by linarith+
  then show ?thesis
    by (auto simp: round_half_even_def Let_def)
qed

lemma floor_log2_ge:
  assumes "0 < x" "2 powi k \<le> x"
  shows "k \<le> floor_log2 x"
proof (rule ccontr)
  assume "\<not> k \<le> floor_log2 x"
  then have "floor_log2 x + 1 \<le> k" by simp
  then have "(2::rat) powi (floor_log2 x + 1) \<le> 2 powi k"
    by (intro power_int_increasing) auto
  with floor_log2_bounds(2)[OF assms(1)] assms(2) show False by simp
qed

lemma floor_log2_less:
  assumes "0 < x" "x < 2 powi k"
  shows "floor_log2 x < k"
proof (rule ccontr)
  assume "\<not> floor_log2 x < k"
  then have "k \<le> floor_log2 x" by simp
  then have "(2::rat) powi k \<le> 2 powi floor_log2 x"
    by (intro power_int_increasing) auto
  with floor_log2_bounds(1)[OF assms(1)] assms(2) show False by simp
qed

lemma to_double_of_int:
  assumes "\<bar>n\<bar> \<le> 2 ^ 53"
  shows "to_double (of_int n) = Fin (of_int n)"
proof (cases "n = 0")
  case True
  then show ?thesis by (simp add: to_double_def)
next
  case False
  define a :: rat where "a = \<bar>of_int n\<bar>"
  have a1: "1 \<le> a" using False by (simp add: a_def flip: of_int_abs)
  have a53: "a \<le> 2 ^ 53"
    using assms unfolding a_def by (metis of_int_abs of_int_le_iff of_int_numeral of_int_power)
  have apos: "0 < a" using a1 by simp
  define e where "e = floor_log2 a"
  have e0: "0 \<le> e" unfolding e_def using a1 by (intro floor_log2_ge[OF apos]) simp
  have e53: "e \<le> 53"
  proof -
    have "a < 2 powi 54" using a53 by simp
    from floor_log2_less[OF apos this] show ?thesis by (simp add: e_def)
  qed
  have emax: "max e (- 1022) = e" using e0 by simp
  define u :: rat where "u = 2 powi (e - 52)"
  have upos: "0 < u" by (simp add: u_def)
  have "\<exists>k. a / u = of_int k"
  proof (cases "e \<le> 52")
    case True
    have "a / u = a * 2 powi (52 - e)"
      by (simp add: u_def power_int_diff field_simps)
    also have "\<dots> = a * 2 ^ nat (52 - e)" using True by (simp add: power_int_def)
    also have "\<dots> = of_int (\<bar>n\<bar> * 2 ^ nat (52 - e))" by (simp add: a_def)
    finally show ?thesis by blast
  next
    case False
    then have e: "e = 53" using e53 by simp
    have "2 powi e \<le> a" unfolding e_def by (rule floor_log2_bounds(1)[OF apos])
    then have "a = 2 ^ 53" using a53 e by simp
    then have "a / u = of_int (2 ^ 52)" by (simp add: u_def e)
    then show ?thesis by blast
  qed
  then obtain k where k: "a / u = of_int k" by blast
  have m: "of_int (round_half_even (a / u)) * u = a"
  proof -
    have "of_int (round_half_even (a / u)) * u = (a / u) * u"
      unfolding k round_half_even_of_int ..
    then show ?thesis using upos by simp
  qed
  have sg: "sgn (of_int n :: rat) * a = of_int n"
    by (simp add: a_def sgn_mult_abs)
  have nz: "(of_int n :: rat) \<noteq> 0" using False by simp
  show ?thesis
    unfolding to_double_def Let_def
    using nz e53 m sg
    by (simp add: emax flip: a_def e_def u_def)
qed

lemma to_double_near:
  assumes "0 < x" "1 / 32 \<le> x" "x < 2 ^ 53 / 30"
  shows "\<exists>v. to_double x = Fin v \<and> \<bar>v - x\<bar> < 1 / 30
           \<and> ((\<exists>k. x = of_int k) \<longrightarrow> v = x)"
proof -
  define e where "e = floor_log2 x"
  have elo: "- 5 \<le> e"
    unfolding e_def using assms(2) by (intro floor_log2_ge[OF assms(1)]) (simp add: power_int_minus)
  have ehi: "e < 49"
  proof -
    have "x < 2 powi 49" using assms(3) by simp
    from floor_log2_less[OF assms(1) this] show ?thesis by (simp add: e_def)
  qed
  have emax: "max e (- 1022) = e" using elo by simp
  define u :: rat where "u = 2 powi (e - 52)"
  have upos: "0 < u" by (simp add: u_def)
  define m where "m = round_half_even (x / u)"
  define v :: rat where "v = of_int m * u"
  have "2 powi e \<le> x" unfolding e_def by (rule floor_log2_bounds(1)[OF assms(1)])
  then have ux: "u \<le> x / 2 ^ 52"
    by (simp add: u_def power_int_diff divide_right_mono)
  have "\<bar>of_int m - x / u\<bar> \<le> 1 / 2" unfolding m_def by (rule round_half_even_error)
  then have "\<bar>of_int m - x / u\<bar> * u \<le> 1 / 2 * u"
    using upos by (intro mult_right_mono) auto
  moreover have "\<bar>of_int m - x / u\<bar> * u = \<bar>v - x\<bar>"
  proof -
    have "\<bar>of_int m - x / u\<bar> * u = \<bar>(of_int m - x / u) * u\<bar>"
      using upos by (simp add: abs_mult)
    also have "(of_int m - x / u) * u = v - x"
      using upos by (simp add: v_def field_simps)
    finally show ?thesis .
  qed
  ultimately have err: "\<bar>v - x\<bar> \<le> u / 2" by simp
  have "u / 2 \<le> x / 2 ^ 53" using ux by simp
  also have "\<dots> < 1 / 30" using assms(3) by simp
  finally have small: "u / 2 < 1 / 30" .
  have exact: "v = x" if "x = of_int k" for k
  proof -
    have "x / u = x * 2 powi (52 - e)"
      by (simp add: u_def power_int_diff field_simps)
    also have "\<dots> = x * 2 ^ nat (52 - e)" using ehi by (simp add: power_int_def)
    also have "\<dots> = of_int (k * 2 ^ nat (52 - e))" by (simp add: that)
    finally have "of_int m = x / u"
      unfolding m_def by (simp only: round_half_even_of_int)
    then show ?thesis using upos by (simp add: v_def)
  qed
  have "to_double x = Fin v"
    unfolding to_double_def Let_def
    using assms(1) ehi
    by (simp add: emax v_def m_def flip: e_def u_def)
  with err small exact show ?thesis by auto
qed

lemma ceil_total_div_limit:
  fixes n :: nat
  assumes "n < 2 ^ 53"
  shows "Math_ceil (js_div (Fin (of_nat n)) (Fin (of_nat limit))) = Fin (of_int \<lceil>of_nat n / (30::rat)\<rceil>)"
proof (cases "n = 0")
  case True
  then show ?thesis by (simp add: limit_def to_double_def)
next
  case False
  define x :: rat where "x = of_nat n / 30"
  have xpos: "0 < x" using False by (simp add: x_def)
  have "1 \<le> (of_nat n :: rat)" using False by (simp add: Suc_leI)
  then have x32: "1 / 32 \<le> x" by (simp add: x_def)
  have "(of_nat n :: rat) < 2 ^ 53" using assms by (metis of_nat_less_iff of_nat_numeral of_nat_power)
  then have xhi: "x < 2 ^ 53 / 30" by (simp add: x_def)
  from to_double_near[OF xpos x32 xhi] obtain v where
    v: "to_double x = Fin v" "\<bar>v - x\<bar> < 1 / 30" "(\<exists>k. x = of_int k) \<longrightarrow> v = x"
    by blast
  have "\<lceil>v\<rceil> = \<lceil>x\<rceil>"
  proof (cases "n mod 30 = 0")
    case True
    then obtain q where "n = 30 * q" by (auto simp: mod_eq_0_iff_dvd)
    then have "x = of_int (int q)" by (simp add: x_def)
    with v(3) show ?thesis by blast
  next
    case False
    define d r where "d = n div 30" and "r = n mod 30"
    have r: "1 \<le> r" "r \<le> 29" using False by (auto simp: r_def)
    have n: "n = 30 * d + r" by (simp add: d_def r_def)
    have xd: "x = of_nat d + of_nat r / 30" by (simp add: x_def n)
    have "(1::rat) \<le> of_nat r" "(of_nat r :: rat) \<le> 29" using r by (simp_all add: Suc_leI)
    then have bx: "of_nat d + 1 / 30 \<le> x" "x \<le> of_nat d + 29 / 30" by (simp_all add: xd)
    have cx: "\<lceil>x\<rceil> = int d + 1"
      using bx by (intro ceiling_unique) auto
    have "x - 1 / 30 < v" "v < x + 1 / 30" using v(2) by linarith+
    with bx have "of_nat d < v" "v \<le> of_nat d + 1" by linarith+
    then have cv: "\<lceil>v\<rceil> = int d + 1"
      by (intro ceiling_unique) auto
    show ?thesis by (simp add: cx cv)
  qed
  then show ?thesis
    using v(1) by (simp add: limit_def x_def)
qed

section \<open>What the handlers do to the state\<close>

lemma catch_with_after [simp]: "after (catch_with env m a) = state_of a"
  by (cases a) (simp_all add: catch_with_def)

lemma ctx_reply_state [simp]: "state_of (ctx_reply env m es s) = s"
  by (simp add: ctx_reply_def)

lemma deliver_state [simp]: "state_of (deliver env c h es s) = s"
  by (simp add: deliver_def ctx_reply_def)

text \<open>What \<open>/start\<close> does to the state: nothing, or one entry added to the identifier cache.\<close>

lemma start_after:
  "after (start env c s) = s \<or>
   (\<exists>i f. find (\<lambda>d. doc_id d = i) (files s) = Some f
      \<and> after (start env c s) = s\<lparr>fileIdCache := (fileIdCache s)(i \<mapsto> file_id f)\<rparr>)"
  by (auto simp: start_def start_try_def Let_def File_findById_def
      split: option.splits awaited.splits if_splits)

text \<open>What an upload does to the state: nothing, or one record with a new identifier added
  (and, in the second version, the listing cache flushed).\<close>

lemma create_and_acknowledge_state:
  "state_of (create_and_acknowledge v env fid ttl th es s) = s
   \<or> (new_id env \<notin> set (map doc_id (files s)) \<and>
       fileIdCache (state_of (create_and_acknowledge v env fid ttl th es s)) = fileIdCache s \<and>
       files (state_of (create_and_acknowledge v env fid ttl th es s)) =
          \<lparr>doc_id = new_id env, file_id = fid, title = ttl, thumbnail = th\<rparr> # files s)"
  by (auto simp: create_and_acknowledge_def File_create_def Let_def split: version.splits)

lemma on_video_try_state:
  "state_of (on_video_try v env c s) = s
   \<or> (\<exists>fid ttl th es. state_of (on_video_try v env c s) = state_of (create_and_acknowledge v env fid ttl th es s))"
  by (auto simp: on_video_try_def split: option.splits prod.splits awaited.splits)

lemma on_video_after:
  "after (on_video v env c s) = s
   \<or> (\<exists>d. doc_id d \<notin> set (map doc_id (files s))
        \<and> fileIdCache (after (on_video v env c s)) = fileIdCache s
        \<and> files (after (on_video v env c s)) = d # files s)"
proof -
  have *: "after (on_video v env c s) = state_of (on_video_try v env c s)"
    by (simp add: on_video_def)
  from on_video_try_state[of v env c s] show ?thesis
  proof
    assume "state_of (on_video_try v env c s) = s"
    then show ?thesis by (simp add: *)
  next
    assume "\<exists>fid ttl th es. state_of (on_video_try v env c s) = state_of (create_and_acknowledge v env fid ttl th es s)"
    then obtain fid ttl th es where
      e: "state_of (on_video_try v env c s) = state_of (create_and_acknowledge v env fid ttl th es s)"
      by blast
    from create_and_acknowledge_state[of v env fid ttl th es s] show ?thesis
      unfolding * e by (metis file_doc.select_convs(1))
  qed
qed

lemma api_files_state:
  "files (snd (snd (api_files v env q s))) = files s
   \<and> fileIdCache (snd (snd (api_files v env q s))) = fileIdCache s"
  by (auto simp: api_files_def listing_begin_def listing_resume_def Let_def
      split: option.splits awaited.splits prod.splits)

lemma find_Cons_other: "doc_id d \<notin> set (map doc_id ds) \<Longrightarrow> find (\<lambda>x. doc_id x = i) ds = Some f
   \<Longrightarrow> find (\<lambda>x. doc_id x = i) (d # ds) = Some f"
  by (auto simp: find_Some_iff image_iff)

lemma consistent_cached:
  assumes "cache_consistent s" and "fileIdCache s i = Some h"
  shows "\<exists>f. find (\<lambda>d. doc_id d = i) (files s) = Some f \<and> file_id f = h"
proof -
  have "map_option file_id (find (\<lambda>d. doc_id d = i) (files s)) = Some h"
    using assms unfolding cache_consistent_def by blast
  then show ?thesis by auto
qed

lemma reachable_consistent: "reachable v s \<Longrightarrow> cache_consistent s"
proof (induction rule: reachable.induct)
  case reachable_initial
  then show ?case by (simp add: cache_consistent_def initial_def)
next
  case (reachable_start s env c)
  from start_after[of env c s] show ?case
  proof
    assume "after (start env c s) = s"
    with reachable_start show ?thesis by simp
  next
    assume "\<exists>i f. find (\<lambda>d. doc_id d = i) (files s) = Some f
      \<and> after (start env c s) = s\<lparr>fileIdCache := (fileIdCache s)(i \<mapsto> file_id f)\<rparr>"
    then obtain i f where "find (\<lambda>d. doc_id d = i) (files s) = Some f"
      "after (start env c s) = s\<lparr>fileIdCache := (fileIdCache s)(i \<mapsto> file_id f)\<rparr>" by blast
    with reachable_start.IH show ?thesis by (auto simp: cache_consistent_def)
  qed
next
  case (reachable_on_video s env c)
  from on_video_after[of v env c s] show ?case
  proof
    assume "after (on_video v env c s) = s"
    with reachable_on_video show ?thesis by simp
  next
    assume "\<exists>d. doc_id d \<notin> set (map doc_id (files s))
        \<and> fileIdCache (after (on_video v env c s)) = fileIdCache s
        \<and> files (after (on_video v env c s)) = d # files s"
    then obtain d where d: "doc_id d \<notin> set (map doc_id (files s))"
      "fileIdCache (after (on_video v env c s)) = fileIdCache s"
      "files (after (on_video v env c s)) = d # files s" by blast
    have dist: "distinct (map doc_id (d # files s))"
      using reachable_on_video.IH d(1) by (simp add: cache_consistent_def)
    have "map_option file_id (find (\<lambda>x. doc_id x = i) (d # files s)) = Some h"
      if "fileIdCache s i = Some h" for i h
    proof -
      from consistent_cached[OF reachable_on_video.IH that] obtain f where
        f: "find (\<lambda>x. doc_id x = i) (files s) = Some f" "file_id f = h" by blast
      from find_Cons_other[OF d(1) f(1)] f(2) show ?thesis by simp
    qed
    with dist d(2,3) show ?thesis
      unfolding cache_consistent_def by simp
  qed
next
  case (reachable_api_files s env q)
  then show ?case using api_files_state[of v env q s] by (simp add: cache_consistent_def)
qed

section \<open>Resolving a short link\<close>

lemma find_distinct:
  "distinct (map doc_id ds) \<Longrightarrow> d \<in> set ds \<Longrightarrow> find (\<lambda>x. doc_id x = doc_id d) ds = Some d"
  by (induction ds) (auto simp: image_iff)

lemma deliver_calls:
  "reply_ok env VideoReady \<Longrightarrow>
   calls_of (deliver env c h es s) = es @ [Reply VideoReady, SendVideo (from_id c) h]"
  by (simp add: deliver_def ctx_reply_def)

lemma filter_SendVideo_catch:
  "filter is_SendVideo (effects (catch_with env m a)) = filter is_SendVideo (calls_of a)"
  by (cases a) (simp_all add: catch_with_def)

lemma start_delivers_store_handle:
  assumes "cache_consistent s" and "d \<in> set (files s)" and "doc_id d \<noteq> []"
    and "payload_text c \<noteq> []" and "strip_video_prefix (trim (payload_text c)) = doc_id d"
    and "store_ok env" and "reply_ok env VideoReady"
  shows "filter is_SendVideo (effects (start env c s)) = [SendVideo (from_id c) (file_id d)]"
    and "fileIdCache (after (start env c s)) (doc_id d) = Some (file_id d)"
proof -
  have f: "find (\<lambda>x. doc_id x = doc_id d) (files s) = Some d"
    using assms(1,2) by (simp add: cache_consistent_def find_distinct)
  have hit: "h = file_id d" if "fileIdCache s (doc_id d) = Some h" for h
    using consistent_cached[OF assms(1) that] f by auto
  show "filter is_SendVideo (effects (start env c s)) = [SendVideo (from_id c) (file_id d)]"
    unfolding start_def filter_SendVideo_catch start_try_def Let_def
    using assms(3-7) f hit
    by (auto simp: deliver_calls File_findById_def split: option.splits)
  show "fileIdCache (after (start env c s)) (doc_id d) = Some (file_id d)"
    unfolding start_def start_try_def Let_def
    using assms(3-7) f hit
    by (auto simp: File_findById_def split: option.splits)
qed

lemma start_not_found_keeps_state:
  assumes "cache_consistent s" and "find (\<lambda>x. doc_id x = i) (files s) = None"
    and "strip_video_prefix (trim (payload_text c)) = i"
  shows "after (start env c s) = s"
proof -
  have "fileIdCache s i = None"
    using consistent_cached[OF assms(1), of i] assms(2) by (cases "fileIdCache s i") auto
  then show ?thesis
    unfolding start_def start_try_def Let_def using assms(2,3)
    by (auto simp: File_findById_def split: option.splits)
qed

text \<open>
  C4. In every state the server can reach, resolving a short id that is persisted in the
  store delivers the handle the store holds for it, whether or not the identifier cache
  already has the id: a cached handle is the store's handle, and after the resolution
  the cache holds the store's handle. A resolution that finds no record leaves the state
  as it was, nothing is cached, and once an upload has created a record under that id the
  same link delivers that record's handle. (The store answers and the bot's reply goes
  through.)
\<close>

theorem identifier_cache_consistent:
  assumes "reachable v s"
    and "payload_text c \<noteq> []" and "strip_video_prefix (trim (payload_text c)) = i" and "i \<noteq> []"
    and "store_ok env" and "reply_ok env VideoReady"
  shows
    "(\<forall>d \<in> set (files s). doc_id d = i \<longrightarrow>
        filter is_SendVideo (effects (start env c s)) = [SendVideo (from_id c) (file_id d)]
        \<and> fileIdCache (after (start env c s)) i = Some (file_id d)
        \<and> (\<forall>h. fileIdCache s i = Some h \<longrightarrow> h = file_id d))
     \<and> (find (\<lambda>d. doc_id d = i) (files s) = None \<longrightarrow>
          after (start env c s) = s
          \<and> (\<forall>env2 c2 d. files (after (on_video v env2 c2 s)) = d # files s \<and> doc_id d = i \<longrightarrow>
               filter is_SendVideo (effects (start env c (after (on_video v env2 c2 s))))
                 = [SendVideo (from_id c) (file_id d)]))"
proof -
  have cs: "cache_consistent s" using assms(1) by (rule reachable_consistent)
  have one: "filter is_SendVideo (effects (start env c s')) = [SendVideo (from_id c) (file_id d)]
        \<and> fileIdCache (after (start env c s')) i = Some (file_id d)
        \<and> (\<forall>h. fileIdCache s' i = Some h \<longrightarrow> h = file_id d)"
    if "cache_consistent s'" "d \<in> set (files s')" "doc_id d = i" for s' d
  proof -
    have f: "find (\<lambda>x. doc_id x = i) (files s') = Some d"
      using that find_distinct[of "files s'" d] by (simp add: cache_consistent_def)
    have "\<forall>h. fileIdCache s' i = Some h \<longrightarrow> h = file_id d"
      using consistent_cached[OF that(1), of i] f by auto
    then show ?thesis
      using start_delivers_store_handle[OF that(1,2) _ assms(2) _ assms(5,6)] assms(3,4) that(3)
      by simp
  qed
  have two: "after (start env c s) = s" if "find (\<lambda>d. doc_id d = i) (files s) = None"
    using start_not_found_keeps_state[OF cs that assms(3)] .
  have three: "filter is_SendVideo (effects (start env c (after (on_video v env2 c2 s))))
                 = [SendVideo (from_id c) (file_id d)]"
    if "files (after (on_video v env2 c2 s)) = d # files s" "doc_id d = i" for env2 c2 d
  proof -
    have "reachable v (after (on_video v env2 c2 s))" using assms(1) by (rule reachable_on_video)
    then have "cache_consistent (after (on_video v env2 c2 s))" by (rule reachable_consistent)
    from one[OF this _ that(2)] that(1) show ?thesis by simp
  qed
  from one[OF cs] two three show ?thesis by blast
qed

theorem identifier_cache_consistent_witness:
  "reachable Part_000 (uploaded Part_000)
   \<and> strip_video_prefix (trim (payload_text (start_update ''video_abc123''))) = ''abc123''
   \<and> files (uploaded Part_000) = [trailer ''abc123'']
   \<and> filter is_SendVideo (effects (start env_ok (start_update ''video_abc123'') (uploaded Part_000)))
       = [SendVideo (Some 7) ''vid1'']
   \<and> fileIdCache (after (start env_ok (start_update ''video_abc123'') (uploaded Part_000))) ''abc123''
       = Some ''vid1''
   \<and> after (start env_ok (start_update ''video_abc123'') initial) = initial"
proof -
  have r: "reachable Part_000 (uploaded Part_000)"
    unfolding uploaded_def by (intro reachable_on_video reachable_initial)
  have p: "payload_text (start_update ''video_abc123'') \<noteq> []" by (simp add: start_update_def)
  have i: "strip_video_prefix (trim (payload_text (start_update ''video_abc123''))) = ''abc123''"
    by code_simp
  have n: "''abc123'' \<noteq> []" by simp
  have ok: "store_ok env_ok" "reply_ok env_ok VideoReady" by (simp_all add: env_ok_def)
  have f: "files (uploaded Part_000) = [trailer ''abc123'']" by code_simp
  have d: "doc_id (trailer ''abc123'') = ''abc123''" "file_id (trailer ''abc123'') = ''vid1''"
    by (simp_all add: trailer_def)
  have e: "find (\<lambda>d. doc_id d = ''abc123'') (files initial) = None" by (simp add: initial_def)
  have c: "from_id (start_update ''video_abc123'') = Some 7" by (simp add: start_update_def)
  show ?thesis
    using r i f d e c
      identifier_cache_consistent [OF r p i n ok]
      identifier_cache_consistent [OF reachable_initial p i n ok]
    by simp
qed

text \<open>
  C6. For every \<open>/start\<close> command, in every state the server can reach: an absent payload
  gets the welcome reply; a payload that is empty after trimming and stripping the
  \<open>video_\<close> prefix gets the malformed-link message; a stripped id with no matching record
  in the store gets the not-available message after one store lookup, so
  \<open>/start video_abc123\<close> with no record \<open>abc123\<close> is answered "not available" and not
  "malformed link". (The replies go through and the store answers.)
\<close>

theorem start_replies:
  assumes "reachable v s"
    and "reply_ok env Welcome" and "reply_ok env InvalidLink" and "reply_ok env NotAvailable"
    and "store_ok env"
  shows "(payload_text c = [] \<longrightarrow> effects (start env c s) = [Reply Welcome])
       \<and> (payload_text c \<noteq> [] \<and> strip_video_prefix (trim (payload_text c)) = [] \<longrightarrow>
            effects (start env c s) = [Reply InvalidLink])
       \<and> (payload_text c \<noteq> [] \<and> strip_video_prefix (trim (payload_text c)) \<noteq> []
            \<and> find (\<lambda>d. doc_id d = strip_video_prefix (trim (payload_text c))) (files s) = None \<longrightarrow>
            effects (start env c s)
              = [StoreFindById (strip_video_prefix (trim (payload_text c))), Reply NotAvailable])"
proof -
  have cs: "cache_consistent s" using assms(1) by (rule reachable_consistent)
  have miss: "fileIdCache s i = None" if "find (\<lambda>d. doc_id d = i) (files s) = None" for i
    using consistent_cached[OF cs, of i] that by (cases "fileIdCache s i") auto
  show ?thesis
    using assms(2-5) miss
    by (auto simp: start_def start_try_def Let_def catch_with_def ctx_reply_def File_findById_def)
qed

theorem start_replies_witness:
  "reachable Part_000 initial
   \<and> effects (start env_ok (start_update []) initial) = [Reply Welcome]
   \<and> effects (start env_ok (start_update ''video_'') initial) = [Reply InvalidLink]
   \<and> effects (start env_ok (start_update ''video_abc123'') initial)
       = [StoreFindById ''abc123'', Reply NotAvailable]"
proof -
  have ok: "reply_ok env_ok Welcome" "reply_ok env_ok InvalidLink" "reply_ok env_ok NotAvailable"
    "store_ok env_ok" by (simp_all add: env_ok_def)
  have a: "payload_text (start_update []) = []" by (simp add: start_update_def)
  have b: "payload_text (start_update ''video_'') \<noteq> []
      \<and> strip_video_prefix (trim (payload_text (start_update ''video_''))) = []" by code_simp
  have c: "payload_text (start_update ''video_abc123'') \<noteq> []
      \<and> strip_video_prefix (trim (payload_text (start_update ''video_abc123''))) \<noteq> []
      \<and> strip_video_prefix (trim (payload_text (start_update ''video_abc123''))) = ''abc123''" by code_simp
  have e: "find (\<lambda>d. doc_id d = i) (files initial) = None" for i by (simp add: initial_def)
  show ?thesis
    using a b c e
      start_replies [OF reachable_initial ok, of "start_update []"]
      start_replies [OF reachable_initial ok, of "start_update ''video_''"]
      start_replies [OF reachable_initial ok, of "start_update ''video_abc123''"]
      reachable_initial [of Part_000]
    by simp
qed

section \<open>Uploading a video\<close>

text \<open>
  C7. For every inbound video whose sender is not the configured administrator (the two
  identities compared as strings), the handler changes no state and makes no relay call
  and no store write; its first call deletes the originating message, and when that call
  and the reply go through it makes exactly two calls: the deletion and the rejection
  notice.
\<close>

theorem non_admin_upload_rejected:
  assumes "String_id (from_id c) \<noteq> String_env (ADMIN_ID env)"
  shows "after (on_video v env c s) = s
       \<and> filter relay_or_write (effects (on_video v env c s)) = []
       \<and> take 1 (effects (on_video v env c s)) = [DeleteMessage]
       \<and> (deleteMessage_ok env \<and> reply_ok env OnlyAdmin \<longrightarrow>
            effects (on_video v env c s) = [DeleteMessage, Reply OnlyAdmin]
            \<and> \<not> unhandled (on_video v env c s))"
  using assms
  by (simp add: on_video_def on_video_try_def catch_with_def ctx_reply_def)

theorem non_admin_upload_rejected_witness:
  "String_id (from_id (video_update 7 None)) \<noteq> String_env (ADMIN_ID env_ok)
   \<and> after (on_video Part_000 env_ok (video_update 7 None) initial) = initial
   \<and> effects (on_video Part_000 env_ok (video_update 7 None) initial) = [DeleteMessage, Reply OnlyAdmin]"
proof -
  have h: "String_id (from_id (video_update 7 None)) \<noteq> String_env (ADMIN_ID env_ok)"
    by code_simp
  have ok: "deleteMessage_ok env_ok \<and> reply_ok env_ok OnlyAdmin" by (simp add: env_ok_def)
  show ?thesis
    using h ok non_admin_upload_rejected [OF h, of Part_000 initial] by blast
qed

lemma downloadTelegramFile_calls:
  "filter persists_or_acknowledges (fst (downloadTelegramFile env f)) = []"
  by (simp add: downloadTelegramFile_def Let_def split: awaited.splits)

lemma uploadToGitHub_calls: "fst (uploadToGitHub env b p) = [GithubPut p b]"
  by (simp add: uploadToGitHub_def)

lemma failed_relay_throws:
  assumes "String_id (from_id c) = String_env (ADMIN_ID env)"
    and "message c = Some m" and "video m = Some vid" and "video_thumbnail vid = Some thumb"
    and "thumbnail_relay_fails env thumb"
  shows "\<exists>es. on_video_try v env c s = Threw es s \<and> filter persists_or_acknowledges es = []"
proof -
  obtain es1 r1 where d: "downloadTelegramFile env thumb = (es1, r1)"
    by (cases "downloadTelegramFile env thumb")
  have es1: "filter persists_or_acknowledges es1 = []"
    using downloadTelegramFile_calls[of env thumb] by (simp add: d)
  show ?thesis
  proof (cases r1)
    case Rejected
    then have "on_video_try v env c s = Threw es1 s"
      using assms(1-4) d by (simp add: on_video_try_def)
    with es1 show ?thesis by blast
  next
    case (Resolved buffer)
    obtain es2 r2 where u: "uploadToGitHub env buffer (generateThumbnailPath env) = (es2, r2)"
      by (cases "uploadToGitHub env buffer (generateThumbnailPath env)")
    have r2: "r2 = Rejected"
      using assms(5) d Resolved u by (simp add: thumbnail_relay_fails_def)
    have es2: "es2 = [GithubPut (generateThumbnailPath env) buffer]"
      using uploadToGitHub_calls[of env buffer "generateThumbnailPath env"] u by simp
    have "on_video_try v env c s = Threw (es1 @ es2) s"
      using assms(1-4) d Resolved u r2 by (simp add: on_video_try_def)
    with es1 es2 show ?thesis by simp
  qed
qed

text \<open>
  C2 (as amended). For every administrator upload that includes a thumbnail handle, if the
  thumbnail relay fails (the download of the thumbnail or its upload to the content host),
  the upload is aborted: the state is unchanged, so no record is persisted, no record is
  created in the store and no upload is acknowledged, and the last call of the handler is
  the failure reply.
\<close>

theorem thumbnail_relay_failure_aborts_upload:
  assumes "String_id (from_id c) = String_env (ADMIN_ID env)"
    and "message c = Some m" and "video m = Some vid" and "video_thumbnail vid = Some thumb"
    and "thumbnail_relay_fails env thumb"
  shows "after (on_video v env c s) = s
       \<and> filter persists_or_acknowledges (effects (on_video v env c s)) = []
       \<and> last (effects (on_video v env c s)) = Reply UploadFailed"
proof -
  from failed_relay_throws[OF assms] obtain es where
    "on_video_try v env c s = Threw es s" "filter persists_or_acknowledges es = []" by blast
  then show ?thesis by (simp add: on_video_def catch_with_def)
qed

theorem thumbnail_relay_failure_aborts_upload_witness:
  "String_id (from_id (video_update 42 (Some ''th1''))) = String_env (ADMIN_ID env_ok)
   \<and> thumbnail_relay_fails (env_ok\<lparr>github_put_ok := (\<lambda>p. False)\<rparr>) ''th1''
   \<and> after (on_video Part_000 (env_ok\<lparr>github_put_ok := (\<lambda>p. False)\<rparr>) (video_update 42 (Some ''th1'')) initial) = initial
   \<and> last (effects (on_video Part_000 (env_ok\<lparr>github_put_ok := (\<lambda>p. False)\<rparr>) (video_update 42 (Some ''th1'')) initial))
       = Reply UploadFailed"
proof -
  have a: "String_id (from_id (video_update 42 (Some ''th1'')))
      = String_env (ADMIN_ID (env_ok\<lparr>github_put_ok := (\<lambda>p. False)\<rparr>))" by code_simp
  have b: "message (video_update 42 (Some ''th1''))
      = Some \<lparr>caption = Some ''Trailer'', video = Some \<lparr>video_file_id = ''vid1'', video_thumbnail = Some ''th1''\<rparr>\<rparr>"
    by (simp add: video_update_def)
  have f: "thumbnail_relay_fails (env_ok\<lparr>github_put_ok := (\<lambda>p. False)\<rparr>) ''th1''" by code_simp
  have e: "ADMIN_ID (env_ok\<lparr>github_put_ok := (\<lambda>p. False)\<rparr>) = ADMIN_ID env_ok" by simp
  show ?thesis
    using a f e thumbnail_relay_failure_aborts_upload [OF a b _ _ f, of _ Part_000 initial]
    by simp
qed

text \<open>
  C2 as stated fails in both versions: with a thumbnail whose download is refused, the
  administrator's upload leaves the store empty and is answered with the failure reply.
\<close>

theorem failed_thumbnail_relay_persists_nothing:
  "files (after (on_video Index_ts (env_ok\<lparr>getFile := (\<lambda>f. Rejected)\<rparr>) (video_update 42 (Some ''th1'')) initial)) = []
   \<and> effects (on_video Index_ts (env_ok\<lparr>getFile := (\<lambda>f. Rejected)\<rparr>) (video_update 42 (Some ''th1'')) initial)
       = [GetFile ''th1'', ConsoleError, Reply UploadFailed]
   \<and> files (after (on_video Part_000 (env_ok\<lparr>getFile := (\<lambda>f. Rejected)\<rparr>) (video_update 42 (Some ''th1'')) initial)) = []
   \<and> effects (on_video Part_000 (env_ok\<lparr>getFile := (\<lambda>f. Rejected)\<rparr>) (video_update 42 (Some ''th1'')) initial)
       = [GetFile ''th1'', ConsoleError, Reply UploadFailed]"
  by code_simp

section \<open>The listing cache\<close>

lemma served_entry:
  "cache_get (foldl apply_op c ops) k t = Some v \<Longrightarrow>
   (\<exists>before later t0. ops = before @ Put k v t0 # later \<and> t - t0 \<le> stdTTL * 1000
        \<and> filter (\<lambda>x. x = InvalidateAll \<or> is_put_for k x) later = [])
   \<or> (cache_get c k t = Some v \<and> filter (\<lambda>x. x = InvalidateAll \<or> is_put_for k x) ops = [])"
proof (induction ops arbitrary: v rule: rev_induct)
  case Nil
  then show ?case by simp
next
  case (snoc x xs)
  show ?case
  proof (cases x)
    case InvalidateAll
    with snoc.prems show ?thesis by (simp add: flushAll_def cache_get_def)
  next
    case (Put k1 v1 t1)
    show ?thesis
    proof (cases "k1 = k")
      case True
      with snoc.prems Put have "v1 = v" "t - t1 \<le> stdTTL * 1000"
        by (auto simp: cache_get_def cache_set_def split: if_splits)
      then have "xs @ [x] = xs @ Put k v t1 # [] \<and> t - t1 \<le> stdTTL * 1000
          \<and> filter (\<lambda>x. x = InvalidateAll \<or> is_put_for k x) [] = []"
        using Put True by simp
      then show ?thesis by blast
    next
      case False
      with snoc.prems Put have g: "cache_get (foldl apply_op c xs) k t = Some v"
        by (simp add: cache_get_def cache_set_def)
      have nx: "\<not> (x = InvalidateAll \<or> is_put_for k x)" using Put False by simp
      from snoc.IH[OF g] show ?thesis
      proof
        assume "\<exists>before later t0. xs = before @ Put k v t0 # later \<and> t - t0 \<le> stdTTL * 1000
          \<and> filter (\<lambda>x. x = InvalidateAll \<or> is_put_for k x) later = []"
        then obtain before later t0 where
          "xs = before @ Put k v t0 # later" "t - t0 \<le> stdTTL * 1000"
          "filter (\<lambda>x. x = InvalidateAll \<or> is_put_for k x) later = []" by blast
        then have "xs @ [x] = before @ Put k v t0 # (later @ [x]) \<and> t - t0 \<le> stdTTL * 1000
          \<and> filter (\<lambda>x. x = InvalidateAll \<or> is_put_for k x) (later @ [x]) = []"
          using nx by simp
        then show ?thesis by blast
      next
        assume "cache_get c k t = Some v \<and> filter (\<lambda>x. x = InvalidateAll \<or> is_put_for k x) xs = []"
        then show ?thesis using nx by simp
      qed
    qed
  qed
qed

text \<open>
  C3. For every page and every sequence of \<open>put\<close> and \<open>invalidateAll\<close> operations on an empty
  listing cache: a snapshot that \<open>get\<close> returns was put under that page at most 5 minutes
  before, and no \<open>invalidateAll\<close> and no other \<open>put\<close> for the page came after it. Right
  after \<open>invalidateAll\<close> every \<open>get\<close> is a miss, and an entry older than 5 minutes is a
  miss.
\<close>

theorem listing_cache_recency:
  "(cache_get (foldl apply_op Map.empty ops) k t = Some v \<longrightarrow>
      (\<exists>before later t0. ops = before @ Put k v t0 # later \<and> t - t0 \<le> 5 * 60 * 1000
          \<and> filter (\<lambda>x. x = InvalidateAll \<or> is_put_for k x) later = []))
   \<and> cache_get (flushAll c) k t = None
   \<and> (c k = Some (w, u) \<and> 5 * 60 * 1000 < t - u \<longrightarrow> cache_get c k t = None)"
proof -
  have "\<exists>before later t0. ops = before @ Put k v t0 # later \<and> t - t0 \<le> 5 * 60 * 1000
          \<and> filter (\<lambda>x. x = InvalidateAll \<or> is_put_for k x) later = []"
    if "cache_get (foldl apply_op Map.empty ops) k t = Some v"
    using served_entry[OF that] by (simp add: cache_get_def stdTTL_def)
  then show ?thesis by (auto simp: cache_get_def flushAll_def stdTTL_def)
qed

theorem listing_cache_recency_witness:
  "cache_get (foldl apply_op Map.empty
      [Put (Fin 1) (empty_page (Fin 1)) 0, InvalidateAll, Put (Fin 1) one_record_page 1000])
      (Fin 1) 2000 = Some one_record_page
   \<and> (\<exists>before later t0.
        [Put (Fin 1) (empty_page (Fin 1)) 0, InvalidateAll, Put (Fin 1) one_record_page 1000]
          = before @ Put (Fin 1) one_record_page t0 # later
        \<and> 2000 - t0 \<le> 5 * 60 * 1000
        \<and> filter (\<lambda>x. x = InvalidateAll \<or> is_put_for (Fin 1) x) later = [])
   \<and> [Fin 1 \<mapsto> (empty_page (Fin 1), 0)] (Fin 1) = Some (empty_page (Fin 1), 0)
   \<and> (5 * 60 * 1000 :: int) < 300001 - 0
   \<and> cache_get [Fin 1 \<mapsto> (empty_page (Fin 1), 0)] (Fin 1) 300001 = None"
proof -
  have a: "cache_get (foldl apply_op Map.empty
      [Put (Fin 1) (empty_page (Fin 1)) 0, InvalidateAll, Put (Fin 1) one_record_page 1000])
      (Fin 1) 2000 = Some one_record_page"
    by (simp add: cache_get_def cache_set_def flushAll_def stdTTL_def)
  have b: "[Fin 1 \<mapsto> (empty_page (Fin 1), 0)] (Fin 1) = Some (empty_page (Fin 1), 0)" by simp
  have c: "(5 * 60 * 1000 :: int) < 300001 - 0" by simp
  note first = listing_cache_recency [where ops = "[Put (Fin 1) (empty_page (Fin 1)) 0, InvalidateAll,
      Put (Fin 1) one_record_page 1000]" and k = "Fin 1" and t = 2000 and v = one_record_page,
      THEN conjunct1]
  note third = listing_cache_recency [where c = "[Fin 1 \<mapsto> (empty_page (Fin 1), 0)]"
      and k = "Fin 1" and t = 300001 and w = "empty_page (Fin 1)" and u = 0,
      THEN conjunct2, THEN conjunct2]
  from first a have d: "\<exists>before later t0.
        [Put (Fin 1) (empty_page (Fin 1)) 0, InvalidateAll, Put (Fin 1) one_record_page 1000]
          = before @ Put (Fin 1) one_record_page t0 # later
        \<and> 2000 - t0 \<le> 5 * 60 * 1000
        \<and> filter (\<lambda>x. x = InvalidateAll \<or> is_put_for (Fin 1) x) later = []"
    by (rule mp)
  from third b c have e: "cache_get [Fin 1 \<mapsto> (empty_page (Fin 1), 0)] (Fin 1) 300001 = None"
    by blast
  from a d b c e show ?thesis by (intro conjI)
qed

section \<open>Listing the catalog\<close>

lemma api_files_hit:
  assumes "cache_get (filesCache s) (page_number v q) (now env) = Some r"
  shows "api_files v env q s = ([], Json200 r, s)"
  using assms by (simp add: api_files_def listing_begin_def)

lemma api_files_miss:
  assumes "cache_get (filesCache s) (page_number v q) (now env) = None"
    and "File_find env (files s) (skip_of (page_number v q)) limit = Resolved fs"
  shows "api_files v env q s =
     ([StoreFind (skip_of (page_number v q)) limit, StoreCount],
      Json200 \<lparr>success = True, page = page_number v q, perPage = Fin (of_nat limit),
                total = Fin (of_nat (length (files s))),
                totalPages = Math_ceil (js_div (Fin (of_nat (length (files s)))) (Fin (of_nat limit))),
                data = fs\<rparr>,
      s\<lparr>filesCache := cache_set (filesCache s) (page_number v q)
            \<lparr>success = True, page = page_number v q, perPage = Fin (of_nat limit),
             total = Fin (of_nat (length (files s))),
             totalPages = Math_ceil (js_div (Fin (of_nat (length (files s)))) (Fin (of_nat limit))),
             data = fs\<rparr> (now env + query_ms env)\<rparr>)"
proof -
  have ok: "store_ok env"
    using assms(2) by (auto simp: File_find_def split: number.splits if_splits)
  show ?thesis
    using assms ok
    by (simp add: api_files_def listing_begin_def listing_resume_def read_page_def
        File_countDocuments_def Let_def)
qed

lemma api_files_miss_failed:
  assumes "cache_get (filesCache s) (page_number v q) (now env) = None"
    and "File_find env (files s) (skip_of (page_number v q)) limit = Rejected"
  shows "api_files v env q s =
     ([StoreFind (skip_of (page_number v q)) limit, StoreCount, ConsoleError], Json500, s)"
  using assms
  by (simp add: api_files_def listing_begin_def listing_resume_def read_page_def Let_def)

lemma skip_of_page: "\<bar>n\<bar> \<le> 2 ^ 47 \<Longrightarrow> skip_of (Fin (of_int n)) = Fin (of_int ((n - 1) * 30))"
proof -
  assume n: "\<bar>n\<bar> \<le> 2 ^ 47"
  then have a: "\<bar>n - 1\<bar> \<le> 2 ^ 53" by simp
  from n have b: "\<bar>(n - 1) * 30\<bar> \<le> 2 ^ 53" by (simp add: abs_mult)
  have "js_sub (Fin (of_int n)) (Fin 1) = Fin (of_int (n - 1))"
    using to_double_of_int[OF a] by simp
  moreover have "js_mul (Fin (of_int (n - 1))) (Fin 30) = Fin (of_int ((n - 1) * 30))"
    using to_double_of_int[OF b] by simp
  ultimately show ?thesis by (simp add: skip_of_def limit_def)
qed

lemma skip_of_1: "skip_of (Fin 1) = Fin 0"
  using skip_of_page[of 1] by simp

lemma skip_of_3: "skip_of (Fin 3) = Fin 60"
  using skip_of_page[of 3] by simp

lemma File_find_page_1:
  "store_ok env \<Longrightarrow> File_find env docs (Fin 0) limit = Resolved (take limit docs)"
  by (simp add: File_find_def)

lemma page_defaults:
  "page_number v (Some (QStr ''0'')) = Fin 1"
  "page_number v (Some (QStr ''-5'')) = Fin 1"
  "page_number v (Some (QStr ''abc'')) = Fin 1"
  "page_number v None = Fin 1"
  "page_number v (Some (QStr ''3'')) = Fin 3"
proof -
  have "page_number Index_ts (Some (QStr ''0'')) = Fin 1" "page_number Part_000 (Some (QStr ''0'')) = Fin 1"
    by code_simp+
  then show "page_number v (Some (QStr ''0'')) = Fin 1" by (cases v) simp_all
  have "page_number Index_ts (Some (QStr ''-5'')) = Fin 1" "page_number Part_000 (Some (QStr ''-5'')) = Fin 1"
    by code_simp+
  then show "page_number v (Some (QStr ''-5'')) = Fin 1" by (cases v) simp_all
  have "page_number Index_ts (Some (QStr ''abc'')) = Fin 1" "page_number Part_000 (Some (QStr ''abc'')) = Fin 1"
    by code_simp+
  then show "page_number v (Some (QStr ''abc'')) = Fin 1" by (cases v) simp_all
  have "page_number Index_ts None = Fin 1" "page_number Part_000 None = Fin 1"
    by code_simp+
  then show "page_number v None = Fin 1" by (cases v) simp_all
  have "page_number Index_ts (Some (QStr ''3'')) = Fin 3" "page_number Part_000 (Some (QStr ''3'')) = Fin 3"
    by code_simp+
  then show "page_number v (Some (QStr ''3'')) = Fin 3" by (cases v) simp_all
qed

lemma api_files_page_1_answers:
  assumes "page_number v q = Fin 1" and "store_ok env"
  shows "\<exists>r. fst (snd (api_files v env q s)) = Json200 r"
proof (cases "cache_get (filesCache s) (page_number v q) (now env)")
  case None
  have "File_find env (files s) (skip_of (page_number v q)) limit = Resolved (take limit (files s))"
    using assms by (simp add: skip_of_1 File_find_page_1)
  from api_files_miss[OF None this] show ?thesis by simp
next
  case (Some r)
  from api_files_hit[OF this] show ?thesis by simp
qed

text \<open>
  C5. In both versions the page inputs \<open>0\<close>, \<open>-5\<close>, \<open>abc\<close> and an absent page all give
  page 1, and a request for page 1 is answered with status 200 whenever the store answers
  (no input is rejected). A response read from the store has \<open>total\<close> the number of
  records, \<open>perPage = 30\<close> and \<open>totalPages\<close> the ceiling of \<open>total / 30\<close> (for catalogs
  below \<open>2 ^ 53\<close> records, where the quotient of doubles rounds to the right side); with 45
  records a request for page 3 is answered with \<open>totalPages = 2\<close>.
\<close>

theorem page_defaults_and_total_pages:
  "page_number v (Some (QStr ''0'')) = Fin 1
   \<and> page_number v (Some (QStr ''-5'')) = Fin 1
   \<and> page_number v (Some (QStr ''abc'')) = Fin 1
   \<and> page_number v None = Fin 1
   \<and> (store_ok env \<and> page_number v q = Fin 1 \<longrightarrow> (\<exists>r. fst (snd (api_files v env q s)) = Json200 r))
   \<and> (length (files s) < 2 ^ 53 \<and> cache_get (filesCache s) (page_number v q) (now env) = None
        \<and> fst (snd (api_files v env q s)) = Json200 r \<longrightarrow>
        total r = Fin (of_nat (length (files s))) \<and> perPage r = Fin 30
        \<and> totalPages r = Fin (of_int \<lceil>of_nat (length (files s)) / (30::rat)\<rceil>))
   \<and> (store_ok env \<and> length (files s) = 45 \<and> cache_get (filesCache s) (Fin 3) (now env) = None \<longrightarrow>
        (\<exists>r. fst (snd (api_files v env (Some (QStr ''3'')) s)) = Json200 r
             \<and> page r = Fin 3 \<and> totalPages r = Fin 2))"
proof -
  have five: "\<exists>r. fst (snd (api_files v env q s)) = Json200 r"
    if "store_ok env" "page_number v q = Fin 1"
    using api_files_page_1_answers[OF that(2,1)] .
  have six: "total r = Fin (of_nat (length (files s))) \<and> perPage r = Fin 30
        \<and> totalPages r = Fin (of_int \<lceil>of_nat (length (files s)) / (30::rat)\<rceil>)"
    if n: "length (files s) < 2 ^ 53"
      and miss: "cache_get (filesCache s) (page_number v q) (now env) = None"
      and r: "fst (snd (api_files v env q s)) = Json200 r"
  proof (cases "File_find env (files s) (skip_of (page_number v q)) limit")
    case Rejected
    from api_files_miss_failed[OF miss this] r show ?thesis by simp
  next
    case (Resolved fs)
    from api_files_miss[OF miss this] r ceil_total_div_limit[OF n] show ?thesis
      by (auto simp: limit_def)
  qed
  have seven: "\<exists>r. fst (snd (api_files v env (Some (QStr ''3'')) s)) = Json200 r
             \<and> page r = Fin 3 \<and> totalPages r = Fin 2"
    if ok: "store_ok env" and n: "length (files s) = 45"
      and miss: "cache_get (filesCache s) (Fin 3) (now env) = None"
  proof -
    have p: "page_number v (Some (QStr ''3'')) = Fin 3" by (rule page_defaults)
    have f: "File_find env (files s) (skip_of (page_number v (Some (QStr ''3'')))) limit
        = Resolved (take limit (drop 60 (files s)))"
      using ok by (simp add: p skip_of_3 File_find_def)
    have m: "cache_get (filesCache s) (page_number v (Some (QStr ''3''))) (now env) = None"
      using miss by (simp add: p)
    have "(45::nat) < 2 ^ 53" by simp
    moreover have "\<lceil>(3::rat) / 2\<rceil> = 2" by (intro ceiling_unique) simp_all
    ultimately have c: "Math_ceil (js_div (Fin 45) (Fin (of_nat limit))) = Fin 2"
      using ceil_total_div_limit[of 45] by (simp del: js_div.simps)
    from api_files_miss[OF m f] show ?thesis by (simp add: p n c del: js_div.simps)
  qed
  from page_defaults(1-4)[of v] five six seven show ?thesis by blast
qed

theorem page_defaults_and_total_pages_witness:
  "store_ok env_ok \<and> length (files (with_catalog 45)) = 45
   \<and> cache_get (filesCache (with_catalog 45)) (Fin 3) (now env_ok) = None
   \<and> (\<exists>r. fst (snd (api_files Part_000 env_ok (Some (QStr ''3'')) (with_catalog 45))) = Json200 r
          \<and> page r = Fin 3 \<and> totalPages r = Fin 2)
   \<and> page_number Index_ts (Some (QStr ''abc'')) = Fin 1"
proof -
  have a: "store_ok env_ok" by (simp add: env_ok_def)
  have b: "length (files (with_catalog 45)) = 45" by (simp add: with_catalog_def catalog_def)
  have c: "cache_get (filesCache (with_catalog 45)) (Fin 3) (now env_ok) = None"
    by (simp add: with_catalog_def cache_get_def)
  show ?thesis
    using a b c
      page_defaults_and_total_pages [of Part_000 env_ok "Some (QStr ''3'')" "with_catalog 45"]
      page_defaults_and_total_pages [of Index_ts]
    by blast
qed

section \<open>Repeated and overlapping listing requests\<close>

lemma api_files_keeps_entry:
  assumes "filesCache s p = Some (r, t0)" and "now env - t0 \<le> stdTTL * 1000"
  shows "filesCache (snd (snd (api_files v env q s))) p = Some (r, t0)"
    and "page_number v q = p \<Longrightarrow> api_files v env q s = ([], Json200 r, s)"
proof -
  have hit: "cache_get (filesCache s) p (now env) = Some r"
    using assms by (simp add: cache_get_def)
  show same: "api_files v env q s = ([], Json200 r, s)" if "page_number v q = p"
    using api_files_hit[of s v q env r] hit that by simp
  show "filesCache (snd (snd (api_files v env q s))) p = Some (r, t0)"
  proof (cases "page_number v q = p")
    case True
    with same assms(1) show ?thesis by simp
  next
    case False
    show ?thesis
    proof (cases "cache_get (filesCache s) (page_number v q) (now env)")
      case (Some r1)
      from api_files_hit[OF this] assms(1) show ?thesis by simp
    next
      case None
      show ?thesis
      proof (cases "File_find env (files s) (skip_of (page_number v q)) limit")
        case Rejected
        from api_files_miss_failed[OF None this] assms(1) show ?thesis by simp
      next
        case (Resolved fs)
        from api_files_miss[OF None this] assms(1) False show ?thesis
          by (simp add: cache_set_def)
      qed
    qed
  qed
qed

lemma serve_all_Cons:
  "fst (serve_all v ((env, q) # calls) s) =
     (fst (api_files v env q s), fst (snd (api_files v env q s)))
       # fst (serve_all v calls (snd (snd (api_files v env q s))))"
  by (simp split: prod.splits)

lemma serve_all_length: "length (fst (serve_all v calls s)) = length calls"
proof (induction calls arbitrary: s)
  case Nil
  then show ?case by simp
next
  case (Cons call calls)
  obtain env q where "call = (env, q)" by (cases call)
  then show ?case using Cons.IH by (simp only: serve_all_Cons) simp
qed

lemma serve_all_within_window:
  assumes "filesCache s p = Some (r, t0)"
    and "list_all (\<lambda>(env1, q1). now env1 - t0 \<le> stdTTL * 1000) calls"
  shows "list_all (\<lambda>((env1, q1), (es1, r1)). page_number v q1 \<noteq> p \<or> (es1 = [] \<and> r1 = Json200 r))
           (zip calls (fst (serve_all v calls s)))"
  using assms
proof (induction calls arbitrary: s)
  case Nil
  then show ?case by simp
next
  case (Cons call calls)
  obtain env1 q1 where call: "call = (env1, q1)" by (cases call)
  obtain es1 r1 s1 where a: "api_files v env1 q1 s = (es1, r1, s1)"
    by (cases "api_files v env1 q1 s")
  have w: "now env1 - t0 \<le> stdTTL * 1000" using Cons.prems(2) call by simp
  have keep: "filesCache s1 p = Some (r, t0)"
    using api_files_keeps_entry(1)[OF Cons.prems(1) w, of v q1] a by simp
  have here: "page_number v q1 \<noteq> p \<or> (es1 = [] \<and> r1 = Json200 r)"
    using api_files_keeps_entry(2)[OF Cons.prems(1) w, of v q1] a by auto
  have rest: "list_all (\<lambda>((env1, q1), (es1, r1)). page_number v q1 \<noteq> p \<or> (es1 = [] \<and> r1 = Json200 r))
           (zip calls (fst (serve_all v calls s1)))"
    using Cons.IH[OF keep] Cons.prems(2) by simp
  show ?case
    unfolding call serve_all_Cons using here rest by (simp add: a)
qed

lemma api_files_answer:
  assumes "api_files v env q s = (es, Json200 r, s1)"
  shows "\<exists>t0. filesCache s1 (page_number v q) = Some (r, t0)"
    and "length (filter is_StoreFind es) \<le> 1"
proof -
  have "(\<exists>t0. filesCache s1 (page_number v q) = Some (r, t0)) \<and> length (filter is_StoreFind es) \<le> 1"
  proof (cases "cache_get (filesCache s) (page_number v q) (now env)")
    case (Some r1)
    from api_files_hit[OF this] assms have "r1 = r" "s1 = s" "es = []" by simp_all
    with Some show ?thesis by (auto simp: cache_get_def split: option.splits if_splits)
  next
    case None
    show ?thesis
    proof (cases "File_find env (files s) (skip_of (page_number v q)) limit")
      case Rejected
      from api_files_miss_failed[OF None this] assms show ?thesis by simp
    next
      case (Resolved fs)
      from api_files_miss[OF None this] assms show ?thesis
        by (auto simp: cache_set_def)
    qed
  qed
  then show "\<exists>t0. filesCache s1 (page_number v q) = Some (r, t0)"
    and "length (filter is_StoreFind es) \<le> 1" by blast+
qed

text \<open>
  C8 (as amended). After a listing request has been answered with a snapshot, the snapshot
  is in the cache, and every later request for the same page that runs on its own (it
  starts after the requests before it have been answered) and starts within 5 minutes of
  the snapshot's caching, with only such listing requests in between, is answered with
  the identical response and makes no call to the store; the answered request itself
  reads the store at most once.
\<close>

theorem listing_idempotent_within_ttl:
  assumes "api_files v env q s = (es, Json200 r, s1)"
  shows "\<exists>t0. filesCache s1 (page_number v q) = Some (r, t0)
       \<and> length (filter is_StoreFind es) \<le> 1
       \<and> (\<forall>calls. list_all (\<lambda>(env1, q1). now env1 - t0 \<le> 5 * 60 * 1000) calls \<longrightarrow>
            length (fst (serve_all v calls s1)) = length calls
            \<and> list_all (\<lambda>((env1, q1), (es1, r1)).
                  page_number v q1 \<noteq> page_number v q \<or> (es1 = [] \<and> r1 = Json200 r))
                (zip calls (fst (serve_all v calls s1))))"
proof -
  from api_files_answer(1)[OF assms] obtain t0 where
    e: "filesCache s1 (page_number v q) = Some (r, t0)" by blast
  have "length (fst (serve_all v calls s1)) = length calls
        \<and> list_all (\<lambda>((env1, q1), (es1, r1)).
              page_number v q1 \<noteq> page_number v q \<or> (es1 = [] \<and> r1 = Json200 r))
            (zip calls (fst (serve_all v calls s1)))"
    if "list_all (\<lambda>(env1, q1). now env1 - t0 \<le> 5 * 60 * 1000) calls" for calls
  proof -
    have w: "list_all (\<lambda>(env1, q1). now env1 - t0 \<le> stdTTL * 1000) calls"
      using that by (simp add: stdTTL_def)
    from serve_all_within_window[OF e w, of v] serve_all_length[of v calls s1]
    show ?thesis by simp
  qed
  with e api_files_answer(2)[OF assms] show ?thesis by blast
qed

theorem listing_idempotent_within_ttl_witness:
  "api_files Part_000 env_ok (Some (QStr ''1'')) initial
     = ([StoreFind (Fin 0) 30, StoreCount], Json200 (empty_page (Fin 1)), listed Part_000)
   \<and> filesCache (listed Part_000) (page_number Part_000 (Some (QStr ''1''))) = Some (empty_page (Fin 1), 5)
   \<and> list_all (\<lambda>(env1, q1). now env1 - 5 \<le> 5 * 60 * 1000) later_calls
   \<and> fst (serve_all Part_000 later_calls (listed Part_000))
       = [([], Json200 (empty_page (Fin 1))), ([], Json200 (empty_page (Fin 1)))]"
proof -
  have p: "page_number Part_000 (Some (QStr ''1'')) = Fin 1" by code_simp
  have a1: "fst (api_files Part_000 env_ok (Some (QStr ''1'')) initial) = [StoreFind (Fin 0) 30, StoreCount]"
    by code_simp
  have a2: "fst (snd (api_files Part_000 env_ok (Some (QStr ''1'')) initial)) = Json200 (empty_page (Fin 1))"
    by code_simp
  have a: "api_files Part_000 env_ok (Some (QStr ''1'')) initial
     = ([StoreFind (Fin 0) 30, StoreCount], Json200 (empty_page (Fin 1)), listed Part_000)"
    using a1 a2 by (simp add: listed_def prod_eq_iff)
  have b: "filesCache (listed Part_000) (page_number Part_000 (Some (QStr ''1''))) = Some (empty_page (Fin 1), 5)"
    by code_simp
  have c: "list_all (\<lambda>(env1, q1). now env1 - 5 \<le> 5 * 60 * 1000) later_calls"
    by (simp add: later_calls_def env_ok_def)
  from listing_idempotent_within_ttl [OF a] b
  have t: "length (fst (serve_all Part_000 later_calls (listed Part_000))) = length later_calls
      \<and> list_all (\<lambda>((env1, q1), (es1, r1)).
            page_number Part_000 q1 \<noteq> page_number Part_000 (Some (QStr ''1''))
            \<or> (es1 = [] \<and> r1 = Json200 (empty_page (Fin 1))))
          (zip later_calls (fst (serve_all Part_000 later_calls (listed Part_000))))"
    using c by auto
  obtain x y where xy: "fst (serve_all Part_000 later_calls (listed Part_000)) = [x, y]"
    using t by (auto simp: later_calls_def length_Suc_conv numeral_2_eq_2)
  have "x = ([], Json200 (empty_page (Fin 1)))" "y = ([], Json200 (empty_page (Fin 1)))"
    using t page_defaults(4)[of Part_000] unfolding xy
    by (auto simp: later_calls_def p)
  with a b c xy show ?thesis by simp
qed

text \<open>
  C8 as stated fails for requests that overlap. In the first version two requests for
  page 1 arrive 1 ms apart and both miss the cache, so the store is read twice for one
  page; the first is answered with the empty catalog, the upload that follows flushes
  nothing (the cached entry is still there), and the second, answered 1 ms after the
  first, gets the page with the new record: two different responses for one page within
  one time-to-live window and with no invalidation.
\<close>

theorem overlapping_requests_answer_differently:
  "listing_begin Index_ts 0 (Some (QStr ''1'')) initial
     = ([StoreFind (Fin 0) 30, StoreCount], Awaiting (Fin 1))
   \<and> listing_begin Index_ts 1 (Some (QStr ''1'')) initial
     = ([StoreFind (Fin 0) 30, StoreCount], Awaiting (Fin 1))
   \<and> fst (snd (listing_resume 5 (Fin 1) (read_page env_ok (files initial) (Fin 1)) initial))
     = Json200 (empty_page (Fin 1))
   \<and> filesCache uploaded_between (Fin 1) = Some (empty_page (Fin 1), 5)
   \<and> fst (snd (listing_resume 6 (Fin 1) (read_page env_ok (files uploaded_between) (Fin 1))
        uploaded_between))
     = Json200 one_record_page"
  by code_simp

lemma listing_begin_miss:
  "cache_get (filesCache s) (page_number v q) t = None \<Longrightarrow>
   listing_begin v t q s = ([StoreFind (skip_of (page_number v q)) limit, StoreCount], Awaiting (page_number v q))"
  by (simp add: listing_begin_def Let_def)

lemma listing_begin_hit:
  "cache_get (filesCache s) (page_number v q) t = Some r \<Longrightarrow>
   listing_begin v t q s = ([], Answered (Json200 r))"
  by (simp add: listing_begin_def Let_def)

lemma listing_resume_answer:
  assumes "File_find env docs (skip_of p) limit = Resolved fs"
  shows "\<exists>r. listing_resume t p (read_page env docs p) s
           = ([], Json200 r, s\<lparr>filesCache := cache_set (filesCache s) p r t\<rparr>)"
proof -
  have ok: "store_ok env"
    using assms by (auto simp: File_find_def split: number.splits if_splits)
  show ?thesis
    using assms ok by (simp add: listing_resume_def read_page_def File_countDocuments_def Let_def)
qed

text \<open>
  C9 (as amended). When two listing requests for the same page meet an empty or expired
  cache entry, the second is served from the cache, with the same response and one store
  query in all, if it arrives after the first has cached its snapshot (and within the time
  to live); if it arrives while the store read of the first is still pending, each of
  the two queries the store.
\<close>

theorem overlapping_requests_query_twice:
  assumes "cache_get (filesCache s) (page_number v q) t1 = None"
    and "cache_get (filesCache s) (page_number v q) t2 = None"
    and "File_find env (files s) (skip_of (page_number v q)) limit = Resolved fs"
    and "a \<noteq> b" and "t4 - t3 \<le> 5 * 60 * 1000"
  shows "length (filter is_StoreFind (fst (run_events v env
            [Arrive a q t1, Arrive b q t2, StoreAnswers a t3, StoreAnswers b t4] Map.empty s))) = 2
       \<and> length (filter is_StoreFind (fst (run_events v env
            [Arrive a q t1, StoreAnswers a t3, Arrive b q t4] Map.empty s))) = 1
       \<and> (\<exists>r. fst (snd (run_events v env
            [Arrive a q t1, StoreAnswers a t3, Arrive b q t4] Map.empty s)) = [(a, Json200 r), (b, Json200 r)])"
proof -
  let ?p = "page_number v q"
  note b1 = listing_begin_miss[OF assms(1)]
  note b2 = listing_begin_miss[OF assms(2)]
  from listing_resume_answer[OF assms(3), of t3 s] obtain r where
    r: "listing_resume t3 ?p (read_page env (files s) ?p) s
          = ([], Json200 r, s\<lparr>filesCache := cache_set (filesCache s) ?p r t3\<rparr>)" by blast
  let ?s1 = "s\<lparr>filesCache := cache_set (filesCache s) ?p r t3\<rparr>"
  from listing_resume_answer[OF assms(3), of t4 ?s1] obtain r' where
    r': "listing_resume t4 ?p (read_page env (files s) ?p) ?s1
          = ([], Json200 r', ?s1\<lparr>filesCache := cache_set (filesCache ?s1) ?p r' t4\<rparr>)" by blast
  have hit: "cache_get (filesCache ?s1) ?p t4 = Some r"
    using assms(5) by (simp add: cache_get_def cache_set_def stdTTL_def)
  note b3 = listing_begin_hit[OF hit]
  have one: "length (filter is_StoreFind (fst (run_events v env
            [Arrive a q t1, Arrive b q t2, StoreAnswers a t3, StoreAnswers b t4] Map.empty s))) = 2"
    using assms(4) by (simp add: b1 b2 r r')
  have two: "length (filter is_StoreFind (fst (run_events v env
            [Arrive a q t1, StoreAnswers a t3, Arrive b q t4] Map.empty s))) = 1"
    by (simp add: b1 r b3)
  have three: "fst (snd (run_events v env
            [Arrive a q t1, StoreAnswers a t3, Arrive b q t4] Map.empty s)) = [(a, Json200 r), (b, Json200 r)]"
    by (simp add: b1 r b3)
  from one two three show ?thesis by blast
qed

theorem overlapping_requests_query_twice_witness:
  "cache_get (filesCache initial) (page_number Part_000 (Some (QStr ''2''))) 0 = None
   \<and> cache_get (filesCache initial) (page_number Part_000 (Some (QStr ''2''))) 1 = None
   \<and> File_find env_ok (files initial) (skip_of (page_number Part_000 (Some (QStr ''2'')))) limit = Resolved []
   \<and> length (filter is_StoreFind (fst (run_events Part_000 env_ok
          [Arrive 1 (Some (QStr ''2'')) 0, Arrive 2 (Some (QStr ''2'')) 1, StoreAnswers 1 5, StoreAnswers 2 6]
          Map.empty initial))) = 2
   \<and> length (filter is_StoreFind (fst (run_events Part_000 env_ok
          [Arrive 1 (Some (QStr ''2'')) 0, StoreAnswers 1 5, Arrive 2 (Some (QStr ''2'')) 6]
          Map.empty initial))) = 1"
proof -
  have m: "cache_get (filesCache initial) (page_number Part_000 (Some (QStr ''2''))) t = None" for t
    by (simp add: initial_def cache_get_def)
  have f: "File_find env_ok (files initial) (skip_of (page_number Part_000 (Some (QStr ''2'')))) limit = Resolved []"
    by code_simp
  have n: "(1::nat) \<noteq> 2" by simp
  have w: "(6::int) - 5 \<le> 5 * 60 * 1000" by simp
  show ?thesis
    using m f overlapping_requests_query_twice [OF m m f n w] by blast
qed

text \<open>
  C9 as stated fails in both versions: two requests for page 2 that arrive one
  millisecond apart, before the store has answered the first, issue two store queries.
\<close>

theorem concurrent_page_2_requests_query_twice:
  "fst (run_events Part_000 env_ok overlapping Map.empty initial)
     = [StoreFind (Fin 30) 30, StoreCount, StoreFind (Fin 30) 30, StoreCount]
   \<and> fst (run_events Index_ts env_ok overlapping Map.empty initial)
     = [StoreFind (Fin 30) 30, StoreCount, StoreFind (Fin 30) 30, StoreCount]
   \<and> fst (snd (run_events Part_000 env_ok overlapping Map.empty initial))
     = [(1, Json200 (empty_page (Fin 2))), (2, Json200 (empty_page (Fin 2)))]"
  by code_simp

section \<open>Uploads and the listing cache\<close>

text \<open>The second version: an upload that persists a record empties the listing cache, and
  the next request for page 1 reads the store and serves the new record.\<close>

lemma create_and_acknowledge_flushes:
  "files (state_of (create_and_acknowledge Part_000 env fid ttl th es s)) \<noteq> files s
   \<Longrightarrow> filesCache (state_of (create_and_acknowledge Part_000 env fid ttl th es s)) = Map.empty"
  by (auto simp: create_and_acknowledge_def File_create_def Let_def flushAll_def
      split: if_splits)

lemma part_000_upload_then_listing:
  assumes "files (after (on_video Part_000 env c s)) = d # files s"
    and "store_ok env2" and "page_number Part_000 q = Fin 1"
  shows "filesCache (after (on_video Part_000 env c s)) = Map.empty"
    and "\<exists>r. fst (snd (api_files Part_000 env2 q (after (on_video Part_000 env c s)))) = Json200 r
           \<and> d \<in> set (data r)"
proof -
  let ?s1 = "after (on_video Part_000 env c s)"
  have a: "?s1 = state_of (on_video_try Part_000 env c s)" by (simp add: on_video_def)
  have ne: "files ?s1 \<noteq> files s" using assms(1) by simp
  from on_video_try_state[of Part_000 env c s] ne a obtain fid ttl th es where
    e: "state_of (on_video_try Part_000 env c s) = state_of (create_and_acknowledge Part_000 env fid ttl th es s)"
    by auto
  show fl: "filesCache ?s1 = Map.empty"
    using create_and_acknowledge_flushes[of env fid ttl th es s] ne unfolding a e by simp
  have miss: "cache_get (filesCache ?s1) (page_number Part_000 q) (now env2) = None"
    by (simp add: fl cache_get_def)
  have f: "File_find env2 (files ?s1) (skip_of (page_number Part_000 q)) limit = Resolved (take limit (files ?s1))"
    using assms(2,3) by (simp add: skip_of_1 File_find_page_1)
  from api_files_miss[OF miss f] assms(1)
  show "\<exists>r. fst (snd (api_files Part_000 env2 q ?s1)) = Json200 r \<and> d \<in> set (data r)"
    by (simp add: limit_def)
qed

lemma part_000_upload_refreshes_listing:
  "files (listed_then_uploaded Part_000) = [trailer ''abc123'']
   \<and> fst (api_files Part_000 (env_ok\<lparr>now := 1000\<rparr>) (Some (QStr ''1'')) (listed_then_uploaded Part_000))
       = [StoreFind (Fin 0) 30, StoreCount]
   \<and> fst (snd (api_files Part_000 (env_ok\<lparr>now := 1000\<rparr>) (Some (QStr ''1'')) (listed_then_uploaded Part_000)))
       = Json200 \<lparr>success = True, page = Fin 1, perPage = Fin 30, total = Fin 1, totalPages = Fin 1,
                   data = [trailer ''abc123'']\<rparr>"
  by code_simp

text \<open>
  C1 fails in the first version (\<open>src/index.ts\<close>), whose upload handler never flushes the
  listing cache. Page 1 of the empty catalog is listed at time 0 and cached; the
  administrator uploads a video, the record is persisted and the upload acknowledged; a
  request for page 1 one second later makes no call to the store and is answered with the
  cached snapshot of the empty catalog, without the new record.
\<close>

theorem index_ts_upload_leaves_listing_stale:
  "files (listed_then_uploaded Index_ts) = [trailer ''abc123'']
   \<and> effects (on_video Index_ts env_ok (video_update 42 None) (listed Index_ts))
       = [StoreCreate ''vid1'' ''Trailer'' [], Reply (Uploaded ''Trailer'' ''abc123'' [])]
   \<and> fst (api_files Index_ts (env_ok\<lparr>now := 1000\<rparr>) (Some (QStr ''1'')) (listed_then_uploaded Index_ts)) = []
   \<and> fst (snd (api_files Index_ts (env_ok\<lparr>now := 1000\<rparr>) (Some (QStr ''1'')) (listed_then_uploaded Index_ts)))
       = Json200 (empty_page (Fin 1))"
  by code_simp

section \<open>Reading the page\<close>

lemma digit_not_space: "is_radix_digit 10 c \<Longrightarrow> \<not> is_white_space c"
  by (auto simp: is_radix_digit_def digit_value_def is_white_space_def Let_def split: if_splits)

lemma not_decimal_digit:
  "\<not> is_radix_digit 10 CHR ''+''" "\<not> is_radix_digit 10 CHR ''-''" "\<not> is_radix_digit 10 CHR ''.''"
  "\<not> is_radix_digit 10 CHR ''x''" "\<not> is_radix_digit 10 CHR ''X''" "\<not> is_radix_digit 10 CHR ''o''"
  "\<not> is_radix_digit 10 CHR ''O''" "\<not> is_radix_digit 10 CHR ''b''" "\<not> is_radix_digit 10 CHR ''B''"
  "\<not> is_radix_digit 10 CHR ''I''"
  by (simp_all add: is_radix_digit_def digit_value_def)

lemma digit_string_member: "decimal_digit_string ds \<Longrightarrow> c \<in> set ds \<Longrightarrow> is_radix_digit 10 c"
  by (simp add: decimal_digit_string_def list_all_iff)

lemma takeWhile_all: "list_all P xs \<Longrightarrow> takeWhile P xs = xs"
  by (induction xs) auto

lemma dropWhile_all: "list_all P xs \<Longrightarrow> dropWhile P xs = []"
  by (induction xs) auto

lemma trimStart_digits: "decimal_digit_string ds \<Longrightarrow> trimStart ds = ds"
  by (cases ds) (auto simp: decimal_digit_string_def trimStart_def digit_not_space)

lemma trim_digits:
  assumes "decimal_digit_string ds"
  shows "trim ds = ds"
proof -
  have "rev ds \<noteq> []" using assms by (simp add: decimal_digit_string_def)
  then obtain c r where cr: "rev ds = c # r" by (cases "rev ds") auto
  then have "c \<in> set ds" by (metis list.set_intros(1) set_rev)
  then have "\<not> is_white_space c" using assms digit_string_member digit_not_space by blast
  then have "trimStart (rev ds) = rev ds" by (simp add: cr trimStart_def)
  then show ?thesis by (simp add: trim_def trimStart_digits[OF assms])
qed

lemma take2_member: "take 2 ds = [a, b] \<Longrightarrow> b \<in> set ds"
  by (metis in_set_takeD list.set_intros(1) list.set_intros(2))

lemma not_prefixed:
  assumes "decimal_digit_string ds"
  shows "take 2 ds \<noteq> ''0x''" "take 2 ds \<noteq> ''0X''" "take 2 ds \<noteq> ''0o''" "take 2 ds \<noteq> ''0O''"
    "take 2 ds \<noteq> ''0b''" "take 2 ds \<noteq> ''0B''"
  using digit_string_member[OF assms take2_member] not_decimal_digit by blast+

lemma digits_sign:
  assumes "decimal_digit_string ds"
  shows "(case ds of [] \<Rightarrow> 1 | c # r \<Rightarrow> if c = CHR ''-'' then - 1 else (1::'a::ring_1)) = 1"
    and "(case ds of [] \<Rightarrow> ds | c # r \<Rightarrow> if c = CHR ''+'' \<or> c = CHR ''-'' then r else ds) = ds"
proof -
  obtain c r where ds: "ds = c # r" using assms by (cases ds) (auto simp: decimal_digit_string_def)
  then have "is_radix_digit 10 c" using digit_string_member[OF assms, of c] by simp
  then have "c \<noteq> CHR ''-''" "c \<noteq> CHR ''+''" using not_decimal_digit by blast+
  then show "(case ds of [] \<Rightarrow> 1 | c # r \<Rightarrow> if c = CHR ''-'' then - 1 else (1::'a::ring_1)) = 1"
    and "(case ds of [] \<Rightarrow> ds | c # r \<Rightarrow> if c = CHR ''+'' \<or> c = CHR ''-'' then r else ds) = ds"
    by (simp_all add: ds)
qed

lemma parseInt_digits:
  assumes "decimal_digit_string ds"
  shows "parseInt ds = to_double (of_int (digits_value 10 ds))"
proof -
  have all: "list_all (is_radix_digit 10) ds" and ne: "ds \<noteq> []"
    using assms by (simp_all add: decimal_digit_string_def)
  show ?thesis
    unfolding parseInt_def Let_def trimStart_digits[OF assms] digits_sign[OF assms]
    using not_prefixed[OF assms] ne by (simp add: takeWhile_all[OF all])
qed

lemma parseInt_signed_digits:
  assumes "decimal_digit_string ds" "c = CHR ''+'' \<or> c = CHR ''-''"
  shows "parseInt (c # ds) = to_double (of_int ((if c = CHR ''-'' then - 1 else 1) * digits_value 10 ds))"
proof -
  have all: "list_all (is_radix_digit 10) ds" and ne: "ds \<noteq> []"
    using assms by (simp_all add: decimal_digit_string_def)
  have ws: "\<not> is_white_space c" using assms(2) by (auto simp: is_white_space_def)
  have ts: "trimStart (c # ds) = c # ds" using ws by (simp add: trimStart_def)
  show ?thesis
    unfolding parseInt_def Let_def ts
    using not_prefixed[OF assms(1)] ne assms(2) by (auto simp: takeWhile_all[OF all])
qed

lemma StrUnsignedDecimalLiteral_digits:
  assumes "decimal_digit_string ds"
  shows "StrUnsignedDecimalLiteral ds = Some (of_int (digits_value 10 ds))"
proof -
  have all: "list_all (is_radix_digit 10) ds" and ne: "ds \<noteq> []"
    using assms by (simp_all add: decimal_digit_string_def)
  show ?thesis
    unfolding StrUnsignedDecimalLiteral_def Let_def takeWhile_all[OF all] dropWhile_all[OF all]
    using ne by (simp add: exponent_part_def)
qed

lemma not_Infinity: "decimal_digit_string ds \<Longrightarrow> ds \<noteq> ''Infinity''"
  using digit_string_member[of ds "CHR ''I''"] not_decimal_digit by auto

lemma StringToNumber_digits:
  assumes "decimal_digit_string ds"
  shows "StringToNumber ds = to_double (of_int (digits_value 10 ds))"
  unfolding StringToNumber_def Let_def trim_digits[OF assms] digits_sign[OF assms]
  using not_prefixed[OF assms] not_Infinity[OF assms] assms
  by (simp add: StrUnsignedDecimalLiteral_digits decimal_digit_string_def)

lemma trim_signed_digits:
  assumes "decimal_digit_string ds" "c = CHR ''+'' \<or> c = CHR ''-''"
  shows "trim (c # ds) = c # ds"
proof -
  have ws: "\<not> is_white_space c" using assms(2) by (auto simp: is_white_space_def)
  have "rev ds \<noteq> []" using assms by (simp add: decimal_digit_string_def)
  then obtain d r where dr: "rev ds = d # r" by (cases "rev ds") auto
  then have "d \<in> set ds" by (metis list.set_intros(1) set_rev)
  then have "\<not> is_white_space d" using assms digit_string_member digit_not_space by blast
  then have "trimStart (rev (c # ds)) = rev (c # ds)" by (simp add: dr trimStart_def)
  moreover have "trimStart (c # ds) = c # ds" using ws by (simp add: trimStart_def)
  ultimately show ?thesis by (simp add: trim_def)
qed

lemma StringToNumber_signed_digits:
  assumes "decimal_digit_string ds" "c = CHR ''+'' \<or> c = CHR ''-''"
  shows "StringToNumber (c # ds) = to_double (of_int ((if c = CHR ''-'' then - 1 else 1) * digits_value 10 ds))"
  unfolding StringToNumber_def Let_def trim_signed_digits[OF assms]
  using assms(2) not_Infinity[OF assms(1)]
  by (auto simp: StrUnsignedDecimalLiteral_digits[OF assms(1)])

lemma plain_integer_same_number:
  assumes "plain_integer str"
  shows "parseInt str = StringToNumber str"
proof -
  obtain c r where str: "str = c # r" using assms by (cases str) (auto simp: plain_integer_def)
  show ?thesis
  proof (cases "c = CHR ''+'' \<or> c = CHR ''-''")
    case True
    then have "decimal_digit_string r" using assms by (simp add: plain_integer_def str)
    then show ?thesis
      unfolding str by (simp only: parseInt_signed_digits[OF _ True] StringToNumber_signed_digits[OF _ True])
  next
    case False
    then have "decimal_digit_string str" using assms by (simp add: plain_integer_def str)
    then show ?thesis by (simp only: parseInt_digits StringToNumber_digits)
  qed
qed

lemma parseInt_undefined: "parseInt ''undefined'' = NaN"
  by code_simp

text \<open>
  C10 (as amended). The two versions of the listing endpoint compute the same page number
  for every page input that is absent or a plain integer (decimal digits with an optional
  sign): there \<open>parseInt\<close> and \<open>Number\<close> read the same value.
\<close>

theorem page_number_versions_agree:
  assumes "plain_page_query q"
  shows "page_number Index_ts q = page_number Part_000 q"
proof (cases q)
  case None
  then show ?thesis
    by (simp add: page_number_def parseInt_query_def Number_query_def parseInt_undefined)
next
  case (Some w)
  then obtain str where w: "w = QStr str" and p: "plain_integer str"
    using assms by (cases w) (auto simp: plain_page_query_def)
  show ?thesis
    by (simp add: Some w page_number_def parseInt_query_def Number_query_def
        plain_integer_same_number[OF p])
qed

theorem page_number_versions_agree_witness:
  "plain_page_query (Some (QStr ''3''))
   \<and> page_number Index_ts (Some (QStr ''3'')) = page_number Part_000 (Some (QStr ''3''))"
proof -
  have h: "plain_page_query (Some (QStr ''3''))" by code_simp
  show ?thesis using h page_number_versions_agree [OF h] by blast
qed

text \<open>
  C10 as stated fails: for the page input \<open>3abc\<close> the version that reads the page with
  \<open>parseInt\<close> serves page 3, the version that reads it with \<open>Number\<close> serves page 1.
\<close>

theorem page_number_versions_differ:
  "page_number Index_ts (Some (QStr ''3abc'')) = Fin 3
   \<and> page_number Part_000 (Some (QStr ''3abc'')) = Fin 1"
  by code_simp

end
